theory Spec2Isabelle
  imports Main "HOL-Library.Sublist" "HOL-Library.Multiset"
begin

section \<open>The capture correlator (class HttpCapture)\<close>

subsection \<open>URL patterns\<close>

text \<open>
  The pattern of an \<open>HttpCapture\<close> is \<^verbatim>\<open>string | RegExp\<close>. A string is tested with
  \<^verbatim>\<open>url.includes(pattern)\<close>, a regular expression with \<^verbatim>\<open>pattern.test(url)\<close>.

  \<open>str_includes\<close> is JavaScript's \<^verbatim>\<open>String.prototype.includes\<close>: the pattern occurs as a
  contiguous run of characters somewhere in the URL.
\<close>

fun str_includes :: "string \<Rightarrow> string \<Rightarrow> bool" where
  "str_includes [] p = (p = [])"
| "str_includes (c # cs) p = (prefix p (c # cs) \<or> str_includes cs p)"

text \<open>
  A JavaScript \<^verbatim>\<open>RegExp\<close> object is its compiled matcher, its flags and the mutable
  property \<^verbatim>\<open>lastIndex\<close>. The matcher is kept abstract: \<open>matchAt r s i\<close> is the end
  index of the match of \<open>r\<close> in \<open>s\<close> that starts at index \<open>i\<close>, if there is one. The
  property \<^verbatim>\<open>lastIndex\<close> lives in the state of the program, since \<^verbatim>\<open>test\<close> writes it.
\<close>

record regexp =
  matchAt :: "string \<Rightarrow> nat \<Rightarrow> nat option"
  global :: bool
  sticky :: bool

datatype url_pattern = Substring string | RegExp regexp

text \<open>The first index from \<open>i\<close> on, up to the end of the string, where the matcher succeeds.\<close>

definition regexpSearch :: "(string \<Rightarrow> nat \<Rightarrow> nat option) \<Rightarrow> string \<Rightarrow> nat \<Rightarrow> nat option" where
  "regexpSearch m s i =
     (case List.find (\<lambda>j. m s j \<noteq> None) [i ..< Suc (length s)] of
        None \<Rightarrow> None
      | Some j \<Rightarrow> m s j)"

text \<open>
  \<^verbatim>\<open>RegExp.prototype.test\<close> (ECMAScript, RegExpBuiltinExec): without the global and the
  sticky flag the search starts at index 0 and \<^verbatim>\<open>lastIndex\<close> is left alone; with one of
  them it starts at \<^verbatim>\<open>lastIndex\<close>, which a success sets to the end of the match and a
  failure resets to 0; a sticky expression matches at the start index only. The result is
  the answer and the new \<^verbatim>\<open>lastIndex\<close>.
\<close>

definition regexpTest :: "regexp \<Rightarrow> nat \<Rightarrow> string \<Rightarrow> bool \<times> nat" where
  "regexpTest r li s =
     (let stateful = (global r \<or> sticky r);
          start = (if stateful then li else 0)
      in if length s < start then (False, if stateful then 0 else li)
         else (case (if sticky r then matchAt r s start else regexpSearch (matchAt r) s start) of
                 None \<Rightarrow> (False, if stateful then 0 else li)
               | Some e \<Rightarrow> (True, if stateful then e else li)))"

text \<open>
  \<^verbatim>\<open>
  private matchesPattern(url: string): boolean {
      if (typeof this.urlPattern === 'string') {
          return url.includes(this.urlPattern);
      } else {
          return this.urlPattern.test(url);
      }
  }
  \<close>
  The second argument and the second result are \<^verbatim>\<open>this.urlPattern.lastIndex\<close>.
\<close>

fun matchesPattern :: "url_pattern \<Rightarrow> nat \<Rightarrow> string \<Rightarrow> bool \<times> nat" where
  "matchesPattern (Substring p) li url = (str_includes url p, li)"
| "matchesPattern (RegExp r) li url = regexpTest r li url"

text \<open>
  The stateless reading of ``the URL matches the pattern'': the substring occurs in the
  URL, or the regular expression has a match at some index of the URL.
\<close>

fun url_matches :: "url_pattern \<Rightarrow> string \<Rightarrow> bool" where
  "url_matches (Substring p) url = str_includes url p"
| "url_matches (RegExp r) url = list_ex (\<lambda>j. matchAt r url j \<noteq> None) [0 ..< Suc (length url)]"

fun stateless :: "url_pattern \<Rightarrow> bool" where
  "stateless (Substring p) = True"
| "stateless (RegExp r) = (\<not> global r \<and> \<not> sticky r)"

subsection \<open>What the driver hands over, and what is recorded\<close>

text \<open>
  A Playwright \<^verbatim>\<open>Request\<close> and \<^verbatim>\<open>Response\<close>, as far as the class reads them.
  \<open>res_text = None\<close> is a body whose \<^verbatim>\<open>response.text()\<close> rejects.
\<close>

record request =
  req_url :: string
  req_method :: string
  req_headers :: "(string \<times> string) list"
  req_postDataBuffer :: "string option"

record response =
  res_url :: string
  res_status :: int
  res_statusText :: string
  res_headers :: "(string \<times> string) list"
  res_text :: "string option"
  res_request :: request

text \<open>
  The two library functions of the JavaScript runtime the class calls, taken as parameters:
  the query parameters of a URL in the order \<^verbatim>\<open>searchParams.forEach\<close> visits them
  (a URL the browser reports is taken to parse), and \<^verbatim>\<open>JSON.parse\<close> (\<open>None\<close> when
  it throws).
\<close>

record 'j runtime =
  searchParams :: "string \<Rightarrow> (string \<times> string) list"
  jsonParse :: "string \<Rightarrow> 'j option"

text \<open>
  A recorded body: parsed JSON, the raw text, or \<^verbatim>\<open>null\<close>. The recorded request and
  response keep the driver's objects (\<^verbatim>\<open>request\<close>, \<^verbatim>\<open>response\<close> in the source,
  \<open>raw_request\<close> and \<open>raw_response\<close> here).
\<close>

datatype 'j body = Json 'j | Text string | Null

record 'j CapturedRequest =
  url :: string
  http_method :: string
  headers :: "(string \<times> string) list"
  queryParams :: "string \<rightharpoonup> string"
  postData :: "'j body"
  raw_request :: request

record 'j CapturedResponse =
  status :: int
  statusText :: string
  headers :: "(string \<times> string) list"
  body :: "'j body"
  raw_response :: response

record 'j CapturedHttpData =
  request :: "'j CapturedRequest"
  response :: "'j CapturedResponse"

definition captureRequest :: "'j runtime \<Rightarrow> request \<Rightarrow> 'j CapturedRequest" where
  "captureRequest js rq =
     \<lparr> url = req_url rq,
       http_method = req_method rq,
       headers = req_headers rq,
       queryParams = fold (\<lambda>(key, v) m. m(key \<mapsto> v)) (searchParams js (req_url rq)) Map.empty,
       postData =
         (case req_postDataBuffer rq of
            None \<Rightarrow> Null
          | Some postDataStr \<Rightarrow>
              (case jsonParse js postDataStr of
                 Some j \<Rightarrow> Json j
               | None \<Rightarrow> Text postDataStr)),
       raw_request = rq \<rparr>"

definition captureResponse :: "'j runtime \<Rightarrow> response \<Rightarrow> 'j CapturedResponse" where
  "captureResponse js rs =
     \<lparr> status = res_status rs,
       statusText = res_statusText rs,
       headers = res_headers rs,
       body =
         (let contentType = (case map_of (res_headers rs) ''content-type'' of
                               None \<Rightarrow> '''' | Some c \<Rightarrow> c)
          in case res_text rs of
               None \<Rightarrow> Null
             | Some bodyText \<Rightarrow>
                 if str_includes contentType ''application/json''
                 then (case jsonParse js bodyText of
                         Some j \<Rightarrow> Json j
                       | None \<Rightarrow> Text bodyText)
                 else Text bodyText),
       raw_response = rs \<rparr>"

subsection \<open>The object, the page's listeners and the event loop\<close>

datatype event_name = EvRequest | EvResponse | EvRequestFinished | EvRequestFailed

text \<open>
  \<^verbatim>\<open>page.on(name, f)\<close> appends a listener; \<^verbatim>\<open>page.off(name, f)\<close> removes the most
  recently added registration of \<open>f\<close> under that name, if there is one. A closure is
  identified by a number.
\<close>

definition addListener :: "'a \<Rightarrow> 'a list \<Rightarrow> 'a list" where
  "addListener l ls = ls @ [l]"

definition removeListener :: "'a \<Rightarrow> 'a list \<Rightarrow> 'a list" where
  "removeListener l ls = rev (remove1 l (rev ls))"

text \<open>
  The state an \<open>HttpCapture\<close> runs in. The first six fields are the object's own
  (\<open>lastIndex\<close> is the property of the \<^verbatim>\<open>RegExp\<close> object \<open>urlPattern\<close> refers to);
  \<open>requestMap\<close> is the local map of \<^verbatim>\<open>startCapture\<close> its request handler closes over;
  \<open>listeners\<close> are the registrations of this object's closures on the page and
  \<open>nextClosure\<close> numbers the next closure; \<open>pending\<close> are the runs of the response handler
  that are suspended in \<^verbatim>\<open>await response.text()\<close>, in the order they started;
  \<open>now\<close> is what \<^verbatim>\<open>Date.now()\<close> returns.
\<close>

record 'j capture_state =
  urlPattern :: url_pattern
  lastIndex :: nat
  capturedData :: "'j CapturedHttpData list"
  requestHandler :: "nat option"
  responseHandler :: "nat option"
  isCapturing :: bool
  requestMap :: "string \<rightharpoonup> request"
  listeners :: "(event_name \<times> nat) list"
  nextClosure :: nat
  pending :: "response list"
  now :: int

text \<open>\<^verbatim>\<open>new HttpCapture(page, urlPattern)\<close>, at clock \<open>t\<close>, the pattern's \<^verbatim>\<open>lastIndex\<close> being \<open>li\<close>.\<close>

definition newHttpCapture :: "url_pattern \<Rightarrow> nat \<Rightarrow> int \<Rightarrow> 'j capture_state" where
  "newHttpCapture p li t =
     \<lparr> urlPattern = p, lastIndex = li, capturedData = [], requestHandler = None,
       responseHandler = None, isCapturing = False, requestMap = Map.empty,
       listeners = [], nextClosure = 0, pending = [], now = t \<rparr>"

text \<open>
  \<^verbatim>\<open>
  async startCapture(): Promise<void> {
      if (this.isCapturing) { return; }
      this.isCapturing = true;
      this.capturedData = [];
      const requestMap = new Map<string, Request>();
      this.requestHandler = (request) => { ... };
      this.responseHandler = async (response) => { ... };
      this.page.on('request', this.requestHandler);
      this.page.on('response', this.responseHandler);
  }
  \<close>
\<close>

definition startCapture :: "'j capture_state \<Rightarrow> 'j capture_state" where
  "startCapture st =
     (if isCapturing st then st
      else let rqh = nextClosure st; rsh = Suc (nextClosure st)
           in st\<lparr> isCapturing := True,
                   capturedData := [],
                   requestMap := Map.empty,
                   requestHandler := Some rqh,
                   responseHandler := Some rsh,
                   listeners := addListener (EvResponse, rsh)
                                  (addListener (EvRequest, rqh) (listeners st)),
                   nextClosure := Suc (Suc (nextClosure st)) \<rparr>)"

text \<open>
  \<^verbatim>\<open>
  stopCapture(): void {
      if (!this.isCapturing) { return; }
      this.isCapturing = false;
      if (this.requestHandler) {
          this.page.off('request', this.requestHandler);
          this.requestHandler = null;
      }
      if (this.responseHandler) {
          this.page.off('response', this.responseHandler);
          this.responseHandler = null;
      }
  }
  \<close>
\<close>

definition stopCapture :: "'j capture_state \<Rightarrow> 'j capture_state" where
  "stopCapture st =
     (if \<not> isCapturing st then st
      else let st1 = st\<lparr> isCapturing := False \<rparr>;
               st2 = (case requestHandler st1 of
                        None \<Rightarrow> st1
                      | Some h \<Rightarrow> st1\<lparr> listeners := removeListener (EvRequest, h) (listeners st1),
                                        requestHandler := None \<rparr>)
           in (case responseHandler st2 of
                 None \<Rightarrow> st2
               | Some h \<Rightarrow> st2\<lparr> listeners := removeListener (EvResponse, h) (listeners st2),
                                 responseHandler := None \<rparr>))"

text \<open>\<^verbatim>\<open>getAllCapturedData() { return [...this.capturedData]; }\<close>: the copy and the state it leaves.\<close>

definition getAllCapturedData :: "'j capture_state \<Rightarrow> 'j CapturedHttpData list \<times> 'j capture_state" where
  "getAllCapturedData st = (capturedData st, st)"

text \<open>\<^verbatim>\<open>clear() { this.capturedData = []; }\<close>\<close>

definition clear :: "'j capture_state \<Rightarrow> 'j capture_state" where
  "clear st = st\<lparr> capturedData := [] \<rparr>"

text \<open>
  The request handler:
  \<^verbatim>\<open>
  (request) => {
      const url = request.url();
      const matches = this.matchesPattern(url);
      if (matches) { requestMap.set(request.url(), request); }
  }
  \<close>
\<close>

definition runRequestHandler :: "request \<Rightarrow> 'j capture_state \<Rightarrow> 'j capture_state" where
  "runRequestHandler rq st =
     (case matchesPattern (urlPattern st) (lastIndex st) (req_url rq) of
        (matches, li) \<Rightarrow>
          st\<lparr> lastIndex := li,
              requestMap := (if matches then (requestMap st)(req_url rq \<mapsto> rq)
                             else requestMap st) \<rparr>)"

text \<open>
  The response handler is asynchronous:
  \<^verbatim>\<open>
  async (response) => {
      const url = response.url();
      const matches = this.matchesPattern(url);
      if (matches) {
          const request = response.request();
          const capturedRequest = await this.captureRequest(request);
          const capturedResponse = await this.captureResponse(response);
          this.capturedData.push({ request: capturedRequest, response: capturedResponse });
      }
  }
  \<close>
  It tests the pattern when the event arrives; on a match the run is suspended until the
  body of the response has been read (\<^verbatim>\<open>await response.text()\<close> in
  \<^verbatim>\<open>captureResponse\<close>), and pushes the pair when it is resumed.
\<close>

definition runResponseHandler :: "response \<Rightarrow> 'j capture_state \<Rightarrow> 'j capture_state" where
  "runResponseHandler rs st =
     (case matchesPattern (urlPattern st) (lastIndex st) (res_url rs) of
        (matches, li) \<Rightarrow>
          st\<lparr> lastIndex := li,
              pending := (if matches then pending st @ [rs] else pending st) \<rparr>)"

text \<open>The pair a resumed run pushes for its response.\<close>

definition capturedPair :: "'j runtime \<Rightarrow> response \<Rightarrow> 'j CapturedHttpData" where
  "capturedPair js rs =
     \<lparr> request = captureRequest js (res_request rs), response = captureResponse js rs \<rparr>"

definition resumeResponseHandler :: "'j runtime \<Rightarrow> nat \<Rightarrow> 'j capture_state \<Rightarrow> 'j capture_state" where
  "resumeResponseHandler js i st =
     (if i < length (pending st)
      then st\<lparr> capturedData := capturedData st @ [capturedPair js (pending st ! i)],
                pending := take i (pending st) @ drop (Suc i) (pending st) \<rparr>
      else st)"

text \<open>
  What the event loop can run while the program is suspended: the page emits a request or
  a response, or the body read of the \<open>i\<close>-th suspended run settles.
\<close>

datatype event = RequestEvent request | ResponseEvent response | BodySettled nat

fun emit :: "'j runtime \<Rightarrow> event \<Rightarrow> 'j capture_state \<Rightarrow> 'j capture_state" where
  "emit js (RequestEvent rq) st =
     fold (\<lambda>l. runRequestHandler rq) (filter (\<lambda>l. fst l = EvRequest) (listeners st)) st"
| "emit js (ResponseEvent rs) st =
     fold (\<lambda>l. runResponseHandler rs) (filter (\<lambda>l. fst l = EvResponse) (listeners st)) st"
| "emit js (BodySettled i) st = resumeResponseHandler js i st"

text \<open>
  \<^verbatim>\<open>await this.page.waitForTimeout(ms)\<close>: the program is suspended for \<open>ms\<close> milliseconds
  and whatever longer the timer takes (\<open>tick_extra\<close>); the events of the tick run meanwhile.
  The timer does not reject.
\<close>

record tick =
  tick_extra :: nat
  tick_events :: "event list"

definition waitForTimeout :: "'j runtime \<Rightarrow> int \<Rightarrow> tick \<Rightarrow> 'j capture_state \<Rightarrow> 'j capture_state" where
  "waitForTimeout js ms tk st =
     (fold (emit js) (tick_events tk) st)\<lparr> now := now st + max ms 0 + int (tick_extra tk) \<rparr>"

lemma now_runRequestHandler [simp]: "now (runRequestHandler rq st) = now st"
  by (simp add: runRequestHandler_def split: prod.splits)

lemma now_runResponseHandler [simp]: "now (runResponseHandler rs st) = now st"
  by (simp add: runResponseHandler_def split: prod.splits)

lemma now_fold_same: "(\<And>s. now (f s) = now s) \<Longrightarrow> now (fold (\<lambda>l. f) ls st) = now st"
  by (induction ls arbitrary: st) simp_all

lemma now_emit [simp]: "now (emit js e st) = now st"
  by (cases e) (simp_all add: now_fold_same resumeResponseHandler_def)

lemma now_waitForTimeout [simp]:
  "now (waitForTimeout js ms tk st) = now st + max ms 0 + int (tick_extra tk)"
  by (simp add: waitForTimeout_def)

datatype capture_error = TimeoutError int

text \<open>
  \<^verbatim>\<open>
  async waitForNextCapture(timeout: number = 30000): Promise<CapturedHttpData> {
      const startTime = Date.now();
      if (this.capturedData.length > 0) {
          return this.capturedData[this.capturedData.length - 1]!;
      }
      while (Date.now() - startTime < timeout) {
          if (this.capturedData.length > 0) {
              return this.capturedData[this.capturedData.length - 1]!;
          }
          await this.page.waitForTimeout(100);
      }
      throw new Error(...);
  }
  \<close>
  \<open>ticks n\<close> is what happens during the \<open>n\<close>-th sleep of the call. The loop ends because
  every sleep moves the clock by at least 100.
\<close>

function pollLoop ::
  "'j runtime \<Rightarrow> int \<Rightarrow> int \<Rightarrow> (nat \<Rightarrow> tick) \<Rightarrow> nat \<Rightarrow> 'j capture_state
     \<Rightarrow> (capture_error + 'j CapturedHttpData) \<times> 'j capture_state" where
  "pollLoop js timeout startTime ticks n st =
     (if now st - startTime < timeout
      then (if capturedData st \<noteq> [] then (Inr (last (capturedData st)), st)
            else pollLoop js timeout startTime ticks (Suc n) (waitForTimeout js 100 (ticks n) st))
      else (Inl (TimeoutError timeout), st))"
  by pat_completeness auto
termination
  by (relation "measure (\<lambda>(js, timeout, startTime, ticks, n, st). nat (timeout - (now st - startTime)))")
     auto

declare pollLoop.simps [simp del]

definition waitForNextCapture ::
  "'j runtime \<Rightarrow> int \<Rightarrow> (nat \<Rightarrow> tick) \<Rightarrow> 'j capture_state
     \<Rightarrow> (capture_error + 'j CapturedHttpData) \<times> 'j capture_state" where
  "waitForNextCapture js timeout ticks st =
     (let startTime = now st
      in if capturedData st \<noteq> [] then (Inr (last (capturedData st)), st)
         else pollLoop js timeout startTime ticks 0 st)"


subsection \<open>Histories of an object\<close>

text \<open>
  What a test can do with an object between its construction and a call under study: call
  \<open>startCapture\<close>, \<open>stopCapture\<close> or \<open>clear\<close>, or yield to the event loop, which runs
  an event.
\<close>

datatype action = CallStartCapture | CallStopCapture | CallClear | Emit event

fun perform :: "'j runtime \<Rightarrow> action \<Rightarrow> 'j capture_state \<Rightarrow> 'j capture_state" where
  "perform js CallStartCapture st = startCapture st"
| "perform js CallStopCapture st = stopCapture st"
| "perform js CallClear st = clear st"
| "perform js (Emit e) st = emit js e st"

definition run :: "'j runtime \<Rightarrow> action list \<Rightarrow> 'j capture_state \<Rightarrow> 'j capture_state" where
  "run js acts st = fold (perform js) acts st"

text \<open>The events of a history, and the events of the first \<open>k\<close> sleeps from the \<open>n\<close>-th on.\<close>

fun delivered :: "action list \<Rightarrow> event list" where
  "delivered [] = []"
| "delivered (Emit e # acts) = e # delivered acts"
| "delivered (a # acts) = delivered acts"

text \<open>
  The events of a history since the buffer was last meant to be reset, that is since the
  last call of \<open>startCapture\<close> or \<open>clear\<close> in it.
\<close>

fun sinceReset :: "action list \<Rightarrow> event list \<Rightarrow> event list" where
  "sinceReset [] es = es"
| "sinceReset (Emit e # acts) es = sinceReset acts (es @ [e])"
| "sinceReset (CallStopCapture # acts) es = sinceReset acts es"
| "sinceReset (a # acts) es = sinceReset acts []"

definition sleptEvents :: "(nat \<Rightarrow> tick) \<Rightarrow> nat \<Rightarrow> nat \<Rightarrow> event list" where
  "sleptEvents ticks n k = concat (map (\<lambda>i. tick_events (ticks i)) [n ..< n + k])"

text \<open>An event that is a response whose URL matches the pattern; the responses of that kind
  among some events, in the order they arrive.\<close>

fun matchingResponse :: "url_pattern \<Rightarrow> event \<Rightarrow> bool" where
  "matchingResponse p (ResponseEvent rs) = url_matches p (res_url rs)"
| "matchingResponse p e = False"

fun matchingResponses :: "url_pattern \<Rightarrow> event list \<Rightarrow> response list" where
  "matchingResponses p [] = []"
| "matchingResponses p (ResponseEvent rs # es) =
     (if url_matches p (res_url rs) then rs # matchingResponses p es else matchingResponses p es)"
| "matchingResponses p (e # es) = matchingResponses p es"

text \<open>A body read that settles is the read of the oldest suspended run: reads settle in
  the order the responses arrived.\<close>

fun settlesFirst :: "event \<Rightarrow> bool" where
  "settlesFirst (BodySettled i) = (i = 0)"
| "settlesFirst e = True"

text \<open>
  An object whose buffer has just been reset while it listens: the buffer is empty, no run
  of the response handler is suspended, and one response listener is registered. This is
  the state after a \<open>startCapture\<close> that took effect, or after a \<open>clear\<close> on a
  capturing object, at a moment when no read is outstanding.
\<close>

definition oneResponseListener :: "'j capture_state \<Rightarrow> bool" where
  "oneResponseListener st = (length (filter (\<lambda>l. fst l = EvResponse) (listeners st)) = 1)"

definition armed :: "'j capture_state \<Rightarrow> bool" where
  "armed st = (capturedData st = [] \<and> pending st = [] \<and> oneResponseListener st)"

text \<open>
  The fields that say whether and how the object listens, and the relation the methods keep
  between them: a capturing object holds its two handlers and they are the registered
  listeners; an idle one holds none and none is registered.
\<close>

definition control ::
  "'j capture_state \<Rightarrow> bool \<times> nat option \<times> nat option \<times> (event_name \<times> nat) list \<times> url_pattern" where
  "control st = (isCapturing st, requestHandler st, responseHandler st, listeners st, urlPattern st)"

fun wired :: "bool \<times> nat option \<times> nat option \<times> (event_name \<times> nat) list \<times> url_pattern \<Rightarrow> bool" where
  "wired (True, Some a, Some b, ls, p) = (ls = [(EvRequest, a), (EvResponse, b)])"
| "wired (False, None, None, ls, p) = (ls = [])"
| "wired other = False"

definition consistent :: "'j capture_state \<Rightarrow> bool" where
  "consistent st = wired (control st)"

text \<open>
  The buffer followed by the pairs the suspended runs will push if their reads settle in
  order.
\<close>

definition ledger :: "'j runtime \<Rightarrow> 'j capture_state \<Rightarrow> 'j CapturedHttpData list" where
  "ledger js st = capturedData st @ map (capturedPair js) (pending st)"


section \<open>The retry-verify engine (class FormFillUtil)\<close>

subsection \<open>Values, errors, results\<close>

text \<open>
  The intended value has the type parameter \<^verbatim>\<open>T\<close>; the code asks
  \<^verbatim>\<open>typeof value === 'string'\<close>, so a value is a string or something else. Every
  pass of the loop begins by writing the value into a template literal,
  \<^verbatim>\<open>`... "${value}"`\<close>, which converts it to a string. The conversion throws a
  \<^verbatim>\<open>TypeError\<close> for a \<^verbatim>\<open>Symbol\<close> and for an object without a usable
  \<^verbatim>\<open>toString\<close> (one made by \<^verbatim>\<open>Object.create(null)\<close>): these are the values
  \<open>Unprintable\<close>.
\<close>

datatype 'v fill_value = Str string | Other 'v | Unprintable 'v

fun isString :: "'v fill_value \<Rightarrow> bool" where
  "isString (Str s) = True"
| "isString (Other x) = False"
| "isString (Unprintable x) = False"

fun printable :: "'v fill_value \<Rightarrow> bool" where
  "printable (Str s) = True"
| "printable (Other x) = True"
| "printable (Unprintable x) = False"

text \<open>
  A call of the driver or of a callback may reject with any value. The \<^verbatim>\<open>catch\<close>
  block of the loop evaluates \<^verbatim>\<open>error.message || String(error)\<close> on what it caught.
  For an \<^verbatim>\<open>Error\<close>, a string, a number and most other values this is a text. For
  \<^verbatim>\<open>null\<close> and \<^verbatim>\<open>undefined\<close> (a \<^verbatim>\<open>Promise.reject()\<close> without argument)
  reading \<^verbatim>\<open>.message\<close> throws a \<^verbatim>\<open>TypeError\<close>, and so does the conversion of
  an object that has neither a message nor a usable \<^verbatim>\<open>toString\<close>: such a rejection
  is \<open>WithoutText\<close>.
\<close>

datatype rejection = WithText string | WithoutText

text \<open>
  What is thrown:
  \<^item> \<open>VerifyActionRequired\<close>, the error of \<^verbatim>\<open>verifyFill\<close> for a value that is not a
    string and has no \<^verbatim>\<open>verifyAction\<close>;
  \<^item> \<open>Rejected t\<close>, the rejection of a call of the driver or of a callback with a value
    for which \<^verbatim>\<open>error.message || String(error)\<close> is the text \<open>t\<close>;
  \<^item> \<open>Textless\<close>, such a rejection with a value for which that expression throws
    (\<^verbatim>\<open>null\<close>, \<^verbatim>\<open>undefined\<close>);
  \<^item> \<open>NotPrintable\<close>, the \<^verbatim>\<open>TypeError\<close> of a template literal for a value that cannot
    be converted to a string;
  \<^item> \<open>TextUnreadable\<close>, the \<^verbatim>\<open>TypeError\<close> of the \<^verbatim>\<open>catch\<close> block evaluating
    that expression on such a value;
  \<^item> \<open>FillFailed\<close>, the error of \<^verbatim>\<open>fillAndAssert\<close>.
\<close>

datatype thrown =
    VerifyActionRequired
  | Rejected string
  | Textless
  | NotPrintable
  | TextUnreadable
  | FillFailed

fun thrownBy :: "rejection \<Rightarrow> thrown" where
  "thrownBy (WithText t) = Rejected t"
| "thrownBy WithoutText = Textless"

text \<open>
  The texts \<^verbatim>\<open>lastError\<close> takes: the empty string it starts with, the text of a thrown
  error, the description of a mismatch (the expected value and the value read, \<open>None\<close>
  when it could not be read), and the text that stands for an empty one in the result.
\<close>

datatype 'v message =
    NoMessage
  | ErrorText thrown
  | ValueMismatch "'v fill_value" "string option"
  | UnknownError

record 'v FillResult =
  success :: bool
  attempts :: int
  finalValue :: "'v fill_value"
  error :: "'v message option"

subsection \<open>The driver\<close>

text \<open>
  The calls of \<^verbatim>\<open>log\<close> and of \<^verbatim>\<open>console.warn\<close> print when \<^verbatim>\<open>debug\<close> is set
  and have no other effect; they are left out.

  The browser is a state of an arbitrary type \<open>'d\<close>. An awaited call of the driver or of a
  callback settles with an outcome (\<open>Inl\<close>: it rejects), after some milliseconds, in a new
  state of the browser; \<open>during\<close> are the network events the event loop dispatches
  while the program is suspended in the call, each given by the name the page emits it
  under.
\<close>

record ('r, 'd) settled =
  outcome :: "rejection + 'r"
  during :: "event_name list"
  took :: nat
  after :: 'd

text \<open>
  A \<^verbatim>\<open>Locator\<close>, as far as the class calls it. \<open>pageWaitForTimeout\<close> is
  \<^verbatim>\<open>locator.page().waitForTimeout\<close>; it does not reject, and \<open>took\<close> is the time it
  takes beyond the milliseconds asked for.
\<close>

record 'd locator =
  clear_field :: "'d \<Rightarrow> (unit, 'd) settled"
  inputValue :: "'d \<Rightarrow> (string, 'd) settled"
  isDisabled :: "'d \<Rightarrow> (bool, 'd) settled"
  pageWaitForTimeout :: "int \<Rightarrow> 'd \<Rightarrow> (unit, 'd) settled"

subsection \<open>Options\<close>

text \<open>
  \<^verbatim>\<open>FillOptions\<close>: every key is optional. A key of an options object is absent, or
  present with the value \<^verbatim>\<open>undefined\<close>, or present with a value of its type. The
  callbacks close over the locator.
\<close>

datatype 'a optional = Absent | Undefined | Given 'a

record ('v, 'd) FillOptions =
  maxRetries_opt :: "int optional"
  retryDelay_opt :: "int optional"
  waitAfterBlur_opt :: "int optional"
  waitBeforeVerify_opt :: "int optional"
  waitForRequests_opt :: "bool optional"
  requestTimeout_opt :: "int optional"
  clearOnRetry_opt :: "bool optional"
  fillAction_opt :: "('v fill_value \<Rightarrow> 'd \<Rightarrow> (unit, 'd) settled) optional"
  verifyAction_opt :: "('v fill_value \<Rightarrow> 'd \<Rightarrow> (bool, 'd) settled) optional"
  debug_opt :: "bool optional"

text \<open>The object \<^verbatim>\<open>{}\<close>, the default of the parameter \<^verbatim>\<open>options\<close>.\<close>

definition noOptions :: "('v, 'd) FillOptions" where
  "noOptions =
     \<lparr> maxRetries_opt = Absent, retryDelay_opt = Absent, waitAfterBlur_opt = Absent,
       waitBeforeVerify_opt = Absent, waitForRequests_opt = Absent, requestTimeout_opt = Absent,
       clearOnRetry_opt = Absent, fillAction_opt = Absent, verifyAction_opt = Absent,
       debug_opt = Absent \<rparr>"

text \<open>
  The merged configuration of \<^verbatim>\<open>fillWithRetry\<close>, \<^verbatim>\<open>options.key ?? default\<close>:
  the default stands for a key that is absent and for one that is \<^verbatim>\<open>undefined\<close>. The
  default of the two callbacks is \<^verbatim>\<open>null\<close>.
\<close>

record ('v, 'd) config =
  maxRetries :: int
  retryDelay :: int
  waitAfterBlur :: int
  waitBeforeVerify :: int
  waitForRequests :: bool
  requestTimeout :: int
  clearOnRetry :: bool
  fillAction :: "('v fill_value \<Rightarrow> 'd \<Rightarrow> (unit, 'd) settled) option"
  verifyAction :: "('v fill_value \<Rightarrow> 'd \<Rightarrow> (bool, 'd) settled) option"
  debug :: bool

definition orDefault :: "'a optional \<Rightarrow> 'a \<Rightarrow> 'a" where
  "orDefault x d = (case x of Absent \<Rightarrow> d | Undefined \<Rightarrow> d | Given y \<Rightarrow> y)"

definition orNull :: "'a optional \<Rightarrow> 'a option" where
  "orNull x = (case x of Absent \<Rightarrow> None | Undefined \<Rightarrow> None | Given y \<Rightarrow> Some y)"

definition mergeDefaults :: "('v, 'd) FillOptions \<Rightarrow> ('v, 'd) config" where
  "mergeDefaults options =
     \<lparr> maxRetries = orDefault (maxRetries_opt options) 3,
       retryDelay = orDefault (retryDelay_opt options) 500,
       waitAfterBlur = orDefault (waitAfterBlur_opt options) 300,
       waitBeforeVerify = orDefault (waitBeforeVerify_opt options) 200,
       waitForRequests = orDefault (waitForRequests_opt options) True,
       requestTimeout = orDefault (requestTimeout_opt options) 3000,
       clearOnRetry = orDefault (clearOnRetry_opt options) True,
       fillAction = orNull (fillAction_opt options),
       verifyAction = orNull (verifyAction_opt options),
       debug = orDefault (debug_opt options) False \<rparr>"

subsection \<open>The page: clock, listeners, closures\<close>

text \<open>
  The two listeners of an attempt, \<^verbatim>\<open>trackRequest = () => activeRequests++\<close> and
  \<^verbatim>\<open>trackFinish = () => activeRequests--\<close>, close over the variable
  \<^verbatim>\<open>activeRequests\<close> of that attempt. The number says which attempt's variable it is.
\<close>

datatype tracker = TrackRequest nat | TrackFinish nat

text \<open>
  The page: the state of the browser, what \<^verbatim>\<open>Date.now()\<close> returns, the listeners
  registered with \<^verbatim>\<open>page.on\<close>, and the number of attempts started so far, which numbers
  the next attempt's closures.
\<close>

record 'd page_state =
  dom :: 'd
  clock :: int
  registry :: "(event_name \<times> tracker) list"
  closures :: nat

text \<open>
  Running a listener while attempt \<open>k\<close> is the one executing: a listener of attempt \<open>k\<close>
  changes the variable \<open>c\<close> of that attempt; a listener of another attempt changes a
  variable nothing reads any more.
\<close>

fun track :: "nat \<Rightarrow> tracker \<Rightarrow> int \<Rightarrow> int" where
  "track k (TrackRequest j) c = (if j = k then c + 1 else c)"
| "track k (TrackFinish j) c = (if j = k then c - 1 else c)"

text \<open>The page emits an event: the listeners registered under its name run, in order.\<close>

definition emitTo :: "nat \<Rightarrow> (event_name \<times> tracker) list \<Rightarrow> event_name \<Rightarrow> int \<Rightarrow> int" where
  "emitTo k reg ev c = fold (\<lambda>l. track k (snd l)) (filter (\<lambda>l. fst l = ev) reg) c"

definition dispatch :: "nat \<Rightarrow> (event_name \<times> tracker) list \<Rightarrow> event_name list \<Rightarrow> int \<Rightarrow> int" where
  "dispatch k reg evs c = fold (emitTo k reg) evs c"

text \<open>
  \<^verbatim>\<open>await call\<close> inside attempt \<open>k\<close>. The state is the page and the attempt's
  \<^verbatim>\<open>activeRequests\<close>.
\<close>

definition await ::
  "nat \<Rightarrow> ('d \<Rightarrow> ('r, 'd) settled) \<Rightarrow> 'd page_state \<times> int
     \<Rightarrow> (rejection + 'r) \<times> ('d page_state \<times> int)" where
  "await k call st =
     (case st of (pg, c) \<Rightarrow>
        let s = call (dom pg)
        in (outcome s,
            (pg\<lparr> dom := after s, clock := clock pg + int (took s) \<rparr>,
             dispatch k (registry pg) (during s) c)))"

text \<open>\<^verbatim>\<open>await page.waitForTimeout(ms)\<close> inside attempt \<open>k\<close>.\<close>

definition sleep :: "nat \<Rightarrow> 'd locator \<Rightarrow> int \<Rightarrow> 'd page_state \<times> int \<Rightarrow> 'd page_state \<times> int" where
  "sleep k loc ms st =
     (case st of (pg, c) \<Rightarrow>
        let s = pageWaitForTimeout loc ms (dom pg)
        in (pg\<lparr> dom := after s, clock := clock pg + max ms 0 + int (took s) \<rparr>,
            dispatch k (registry pg) (during s) c))"

text \<open>Sequencing of steps that may throw.\<close>

definition andThen ::
  "('e + 'a) \<times> 's \<Rightarrow> ('a \<Rightarrow> 's \<Rightarrow> ('e + 'b) \<times> 's) \<Rightarrow> ('e + 'b) \<times> 's" where
  "andThen m f = (case m of (Inl e, s) \<Rightarrow> (Inl e, s) | (Inr x, s) \<Rightarrow> f x s)"

text \<open>An awaited call that rejects throws what it rejected with.\<close>

definition rejecting :: "(rejection + 'r) \<times> 's \<Rightarrow> (thrown + 'r) \<times> 's" where
  "rejecting m = (case m of (Inl t, s) \<Rightarrow> (Inl (thrownBy t), s) | (Inr x, s) \<Rightarrow> (Inr x, s))"

subsection \<open>verifyFill\<close>

text \<open>
  \<^verbatim>\<open>
  private static async verifyFill<T>(locator, expectedValue, verifyAction?) {
    if (verifyAction) {
      return await verifyAction(locator, expectedValue);
    }
    if (typeof expectedValue === 'string') {
      const actualValue = await locator.inputValue();
      if (actualValue !== expectedValue) { return false; }
      const isDisabled = await locator.isDisabled().catch(() => false);
      if (isDisabled) { return false; }
      return true;
    }
    throw new Error('...');
  }
  \<close>
\<close>

definition verifyFill ::
  "nat \<Rightarrow> 'd locator \<Rightarrow> 'v fill_value
     \<Rightarrow> ('v fill_value \<Rightarrow> 'd \<Rightarrow> (bool, 'd) settled) option
     \<Rightarrow> 'd page_state \<times> int \<Rightarrow> (thrown + bool) \<times> ('d page_state \<times> int)" where
  "verifyFill k loc expectedValue verifyAction' st =
     (case verifyAction' of
        Some va \<Rightarrow> rejecting (await k (va expectedValue) st)
      | None \<Rightarrow>
          (case expectedValue of
             Str expected \<Rightarrow>
               andThen (rejecting (await k (inputValue loc) st))
                 (\<lambda>actualValue st1.
                    if actualValue \<noteq> expected then (Inr False, st1)
                    else (case await k (isDisabled loc) st1 of
                            (Inl t, st2) \<Rightarrow> (Inr True, st2)
                          | (Inr disabled, st2) \<Rightarrow> (Inr (\<not> disabled), st2)))
           | Other x \<Rightarrow> (Inl VerifyActionRequired, st)
           | Unprintable x \<Rightarrow> (Inl VerifyActionRequired, st)))"

subsection \<open>One attempt\<close>

text \<open>
  Step 1 of the \<^verbatim>\<open>try\<close> block:
  \<^verbatim>\<open>
  if (attempt > 1 && config.clearOnRetry) {
    if (!config.fillAction && typeof value === 'string') {
      await locator.clear();
      await page.waitForTimeout(100);
    }
  }
  \<close>
\<close>

definition clearStep ::
  "('v, 'd) config \<Rightarrow> nat \<Rightarrow> 'd locator \<Rightarrow> 'v fill_value \<Rightarrow> int
     \<Rightarrow> 'd page_state \<times> int \<Rightarrow> (thrown + unit) \<times> ('d page_state \<times> int)" where
  "clearStep cfg k loc v attempt st =
     (if 1 < attempt \<and> clearOnRetry cfg \<and> fillAction cfg = None \<and> isString v
      then andThen (rejecting (await k (clear_field loc) st))
             (\<lambda>u st1. (Inr (), sleep k loc 100 st1))
      else (Inr (), st))"

text \<open>
  Step 2: \<^verbatim>\<open>if (config.fillAction) { await config.fillAction(locator, value); }\<close>
\<close>

definition fillStep ::
  "('v, 'd) config \<Rightarrow> nat \<Rightarrow> 'v fill_value
     \<Rightarrow> 'd page_state \<times> int \<Rightarrow> (thrown + unit) \<times> ('d page_state \<times> int)" where
  "fillStep cfg k v st =
     (case fillAction cfg of
        Some fa \<Rightarrow> rejecting (await k (fa v) st)
      | None \<Rightarrow> (Inr (), st))"

text \<open>
  Step 5, after the sleep of \<^verbatim>\<open>waitAfterBlur\<close>:
  \<^verbatim>\<open>
  if (config.waitForRequests && activeRequests > 0) {
    const startTime = Date.now();
    while (activeRequests > 0) {
      if (Date.now() - startTime > config.requestTimeout) { break; }
      await page.waitForTimeout(50);
    }
  }
  \<close>
  The loop ends because every sleep moves the clock by at least 50.
\<close>

lemma clock_sleep:
  "clock (fst (sleep k loc ms st))
     = clock (fst st) + max ms 0 + int (took (pageWaitForTimeout loc ms (dom (fst st))))"
  by (cases st) (simp add: sleep_def Let_def)

function quiescenceLoop ::
  "nat \<Rightarrow> 'd locator \<Rightarrow> int \<Rightarrow> int \<Rightarrow> 'd page_state \<times> int \<Rightarrow> 'd page_state \<times> int" where
  "quiescenceLoop k loc timeout startTime st =
     (if 0 < snd st
      then (if timeout < clock (fst st) - startTime then st
            else quiescenceLoop k loc timeout startTime (sleep k loc 50 st))
      else st)"
  by pat_completeness auto
termination
  by (relation "measure (\<lambda>(k, loc, timeout, startTime, st). nat (timeout + 1 - (clock (fst st) - startTime)))")
     (auto simp: clock_sleep)

declare quiescenceLoop.simps [simp del]

definition waitForQuiescence ::
  "('v, 'd) config \<Rightarrow> nat \<Rightarrow> 'd locator \<Rightarrow> 'd page_state \<times> int \<Rightarrow> 'd page_state \<times> int" where
  "waitForQuiescence cfg k loc st =
     (if waitForRequests cfg \<and> 0 < snd st
      then quiescenceLoop k loc (requestTimeout cfg) (clock (fst st)) st
      else st)"

text \<open>
  The end of the \<^verbatim>\<open>try\<close> block when nothing is thrown: it returns the result of a
  successful attempt, or it falls through with the description of the mismatch in
  \<^verbatim>\<open>lastError\<close>.
\<close>

datatype 'v attempt_end = Succeeded "'v FillResult" | Mismatched "'v message"

text \<open>
  After a successful verification: the final value is the intended value when there is a
  \<^verbatim>\<open>verifyAction\<close>, else the value read, else (the read rejects) the intended value.
\<close>

definition succeed ::
  "('v, 'd) config \<Rightarrow> nat \<Rightarrow> 'd locator \<Rightarrow> 'v fill_value \<Rightarrow> int
     \<Rightarrow> 'd page_state \<times> int \<Rightarrow> (thrown + 'v attempt_end) \<times> ('d page_state \<times> int)" where
  "succeed cfg k loc v attempt st =
     (case verifyAction cfg of
        Some va \<Rightarrow>
          (Inr (Succeeded \<lparr> success = True, attempts = attempt, finalValue = v, error = None \<rparr>), st)
      | None \<Rightarrow>
          (case await k (inputValue loc) st of
             (Inl t, st1) \<Rightarrow>
               (Inr (Succeeded \<lparr> success = True, attempts = attempt, finalValue = v, error = None \<rparr>), st1)
           | (Inr actual, st1) \<Rightarrow>
               (Inr (Succeeded \<lparr> success = True, attempts = attempt, finalValue = Str actual,
                                  error = None \<rparr>), st1)))"

text \<open>After a failed verification: the value is read for the description of the mismatch.\<close>

definition mismatch ::
  "nat \<Rightarrow> 'd locator \<Rightarrow> 'v fill_value
     \<Rightarrow> 'd page_state \<times> int \<Rightarrow> (thrown + 'v attempt_end) \<times> ('d page_state \<times> int)" where
  "mismatch k loc v st =
     (case await k (inputValue loc) st of
        (Inl t, st1) \<Rightarrow> (Inr (Mismatched (ValueMismatch v None)), st1)
      | (Inr actual, st1) \<Rightarrow> (Inr (Mismatched (ValueMismatch v (Some actual))), st1))"

text \<open>
  The inner \<^verbatim>\<open>try\<close> block, steps 1 to 7:
  \<^verbatim>\<open>
  try {
    // 1. clear (on a retry)  2. fill
    await page.waitForTimeout(config.waitAfterBlur);
    // 5. wait for the requests
    await page.waitForTimeout(config.waitBeforeVerify);
    const isValid = await this.verifyFill(locator, value, config.verifyAction);
    if (isValid) { ...; return { success: true, attempts: attempt, finalValue }; }
    ...; lastError = `...`;
  }
  \<close>
  First the steps before the verification, 1 to 6.
\<close>

definition beforeVerify ::
  "('v, 'd) config \<Rightarrow> nat \<Rightarrow> 'd locator \<Rightarrow> 'v fill_value \<Rightarrow> int
     \<Rightarrow> 'd page_state \<times> int \<Rightarrow> (thrown + unit) \<times> ('d page_state \<times> int)" where
  "beforeVerify cfg k loc v attempt st =
     andThen (clearStep cfg k loc v attempt st)
       (\<lambda>u st1.
          andThen (fillStep cfg k v st1)
            (\<lambda>u st2.
               let st3 = sleep k loc (waitAfterBlur cfg) st2;
                   st4 = waitForQuiescence cfg k loc st3;
                   st5 = sleep k loc (waitBeforeVerify cfg) st4
               in (Inr (), st5)))"

definition tryBlock ::
  "('v, 'd) config \<Rightarrow> nat \<Rightarrow> 'd locator \<Rightarrow> 'v fill_value \<Rightarrow> int
     \<Rightarrow> 'd page_state \<times> int \<Rightarrow> (thrown + 'v attempt_end) \<times> ('d page_state \<times> int)" where
  "tryBlock cfg k loc v attempt st =
     andThen (beforeVerify cfg k loc v attempt st)
       (\<lambda>u st5.
          andThen (verifyFill k loc v (verifyAction cfg) st5)
            (\<lambda>isValid st6.
               if isValid then succeed cfg k loc v attempt st6
               else mismatch k loc v st6))"

text \<open>
  Registration before the \<^verbatim>\<open>try\<close> block and the \<^verbatim>\<open>finally\<close> block after it:
  \<^verbatim>\<open>
  if (config.waitForRequests) {
    page.on('request', trackRequest);
    page.on('requestfinished', trackFinish);
    page.on('requestfailed', trackFinish);
  }
  try { ... } finally {
    if (config.waitForRequests) {
      page.off('request', trackRequest);
      page.off('requestfinished', trackFinish);
      page.off('requestfailed', trackFinish);
    }
  }
  \<close>
\<close>

definition registerTrackers :: "('v, 'd) config \<Rightarrow> nat \<Rightarrow> 'd page_state \<Rightarrow> 'd page_state" where
  "registerTrackers cfg k pg =
     (if waitForRequests cfg
      then pg\<lparr> registry :=
                 addListener (EvRequestFailed, TrackFinish k)
                   (addListener (EvRequestFinished, TrackFinish k)
                      (addListener (EvRequest, TrackRequest k) (registry pg))) \<rparr>
      else pg)"

definition unregisterTrackers :: "('v, 'd) config \<Rightarrow> nat \<Rightarrow> 'd page_state \<Rightarrow> 'd page_state" where
  "unregisterTrackers cfg k pg =
     (if waitForRequests cfg
      then pg\<lparr> registry :=
                 removeListener (EvRequestFailed, TrackFinish k)
                   (removeListener (EvRequestFinished, TrackFinish k)
                      (removeListener (EvRequest, TrackRequest k) (registry pg))) \<rparr>
      else pg)"

text \<open>
  The sleep before the next attempt, after the \<^verbatim>\<open>finally\<close> block or in the
  \<^verbatim>\<open>catch\<close> block:
  \<^verbatim>\<open>if (attempt <= config.maxRetries) { await page.waitForTimeout(config.retryDelay); }\<close>
\<close>

definition retryPause ::
  "('v, 'd) config \<Rightarrow> nat \<Rightarrow> 'd locator \<Rightarrow> int \<Rightarrow> 'd page_state \<Rightarrow> 'd page_state" where
  "retryPause cfg k loc attempt pg =
     (if attempt \<le> maxRetries cfg then fst (sleep k loc (retryDelay cfg) (pg, 0)) else pg)"

text \<open>
  How one pass of the \<^verbatim>\<open>for\<close> loop ends: the function returns, or the loop goes on
  with a new \<^verbatim>\<open>lastError\<close>, or something is thrown out of the loop and the promise
  of \<^verbatim>\<open>fillWithRetry\<close> rejects with it.
\<close>

datatype 'v pass_end = Return "'v FillResult" | Continue "'v message" | Raise thrown

text \<open>
  The outer \<^verbatim>\<open>catch\<close> block:
  \<^verbatim>\<open>
  } catch (error: any) {
    lastError = error.message || String(error);
    if (attempt <= config.maxRetries) { await page.waitForTimeout(config.retryDelay); }
  }
  \<close>
  For a caught \<^verbatim>\<open>null\<close> or \<^verbatim>\<open>undefined\<close> its first statement throws a
  \<^verbatim>\<open>TypeError\<close>, which nothing catches: it leaves the loop and the function, after
  the \<^verbatim>\<open>finally\<close> block of the pass has run. For every other caught value its text
  goes to \<^verbatim>\<open>lastError\<close> and the loop goes on after the pause.
\<close>

definition catchBlock ::
  "('v, 'd) config \<Rightarrow> nat \<Rightarrow> 'd locator \<Rightarrow> int \<Rightarrow> thrown \<Rightarrow> 'd page_state
     \<Rightarrow> 'v pass_end \<times> 'd page_state" where
  "catchBlock cfg k loc attempt e pg =
     (if e = Textless then (Raise TextUnreadable, pg)
      else (Continue (ErrorText e), retryPause cfg k loc attempt pg))"

text \<open>
  One pass of the loop. The first statement of the outer \<^verbatim>\<open>try\<close> block builds the
  text of a log line from the value,
  \<^verbatim>\<open>log(`... ${attempt}/${config.maxRetries + 1}: ... "${value}"`)\<close>, whether or not
  \<^verbatim>\<open>debug\<close> is set: for a value that cannot be converted to a string this throws,
  before anything else of the pass, into the outer \<^verbatim>\<open>catch\<close>. Otherwise: a new
  \<^verbatim>\<open>activeRequests = 0\<close> and its two closures, the registration, the inner
  \<^verbatim>\<open>try\<close> block, the \<^verbatim>\<open>finally\<close> block, and then: a \<^verbatim>\<open>return\<close> of the
  \<^verbatim>\<open>try\<close> block returns; a mismatch goes on after the pause; anything thrown in the
  \<^verbatim>\<open>try\<close> block goes, after the \<^verbatim>\<open>finally\<close> block, to the outer
  \<^verbatim>\<open>catch\<close>.
\<close>

definition attemptOnce ::
  "('v, 'd) config \<Rightarrow> 'd locator \<Rightarrow> 'v fill_value \<Rightarrow> int \<Rightarrow> 'd page_state
     \<Rightarrow> 'v pass_end \<times> 'd page_state" where
  "attemptOnce cfg loc v attempt pg =
     (if \<not> printable v then catchBlock cfg (closures pg) loc attempt NotPrintable pg
      else
        let k = closures pg;
            pg1 = registerTrackers cfg k (pg\<lparr> closures := Suc k \<rparr>)
        in case tryBlock cfg k loc v attempt (pg1, 0) of
             (res, (pg2, c)) \<Rightarrow>
               let pg3 = unregisterTrackers cfg k pg2
               in (case res of
                     Inr (Succeeded r) \<Rightarrow> (Return r, pg3)
                   | Inr (Mismatched m) \<Rightarrow> (Continue m, retryPause cfg k loc attempt pg3)
                   | Inl e \<Rightarrow> catchBlock cfg k loc attempt e pg3))"

subsection \<open>fillWithRetry\<close>

text \<open>
  \<^verbatim>\<open>
  for (let attempt = 1; attempt <= config.maxRetries + 1; attempt++) { ... }
  const finalValue = await locator.inputValue().catch(() => '');
  return { success: false, attempts: config.maxRetries + 1, finalValue: finalValue,
           error: lastError || '...' };
  \<close>
\<close>

fun orUnknown :: "'v message \<Rightarrow> 'v message" where
  "orUnknown NoMessage = UnknownError"
| "orUnknown (ErrorText (Rejected [])) = UnknownError"
| "orUnknown m = m"

definition exhausted ::
  "('v, 'd) config \<Rightarrow> 'd locator \<Rightarrow> 'v message \<Rightarrow> 'd page_state \<Rightarrow> 'v FillResult \<times> 'd page_state" where
  "exhausted cfg loc lastError pg =
     (case await (closures pg) (inputValue loc) (pg, 0) of
        (res, (pg1, c)) \<Rightarrow>
          (\<lparr> success = False, attempts = maxRetries cfg + 1,
             finalValue = (case res of Inl t \<Rightarrow> Str [] | Inr actual \<Rightarrow> Str actual),
             error = Some (orUnknown lastError) \<rparr>, pg1))"

function retryLoop ::
  "('v, 'd) config \<Rightarrow> 'd locator \<Rightarrow> 'v fill_value \<Rightarrow> int \<Rightarrow> 'v message \<Rightarrow> 'd page_state
     \<Rightarrow> (thrown + 'v FillResult) \<times> 'd page_state" where
  "retryLoop cfg loc v attempt lastError pg =
     (if attempt \<le> maxRetries cfg + 1
      then (case attemptOnce cfg loc v attempt pg of
              (Return r, pg1) \<Rightarrow> (Inr r, pg1)
            | (Continue m, pg1) \<Rightarrow> retryLoop cfg loc v (attempt + 1) m pg1
            | (Raise e, pg1) \<Rightarrow> (Inl e, pg1))
      else (case exhausted cfg loc lastError pg of (r, pg1) \<Rightarrow> (Inr r, pg1)))"
  by pat_completeness auto
termination
  by (relation "measure (\<lambda>(cfg, loc, v, attempt, lastError, pg). nat (maxRetries cfg + 2 - attempt))")
     auto

declare retryLoop.simps [simp del]

text \<open>
  \<^verbatim>\<open>static async fillWithRetry<T>(locator, value, options = {}): Promise<FillResult<T>>\<close>.
  The promise rejects (\<open>Inl\<close>) or resolves with a result.
\<close>

definition fillWithRetry ::
  "'d locator \<Rightarrow> 'v fill_value \<Rightarrow> ('v, 'd) FillOptions \<Rightarrow> 'd page_state
     \<Rightarrow> (thrown + 'v FillResult) \<times> 'd page_state" where
  "fillWithRetry loc v options pg = retryLoop (mergeDefaults options) loc v 1 NoMessage pg"

text \<open>The states of the page in which the passes of the loop begin.\<close>

function attemptStarts ::
  "('v, 'd) config \<Rightarrow> 'd locator \<Rightarrow> 'v fill_value \<Rightarrow> int \<Rightarrow> 'd page_state \<Rightarrow> 'd page_state list" where
  "attemptStarts cfg loc v attempt pg =
     (if attempt \<le> maxRetries cfg + 1
      then pg # (case attemptOnce cfg loc v attempt pg of
                   (Return r, pg1) \<Rightarrow> []
                 | (Continue m, pg1) \<Rightarrow> attemptStarts cfg loc v (attempt + 1) pg1
                 | (Raise e, pg1) \<Rightarrow> [])
      else [])"
  by pat_completeness auto
termination
  by (relation "measure (\<lambda>(cfg, loc, v, attempt, pg). nat (maxRetries cfg + 2 - attempt))")
     auto

declare attemptStarts.simps [simp del]

text \<open>
  What the verification of a pass came to: the pass did not get to it (the log line or a
  step before it threw), or \<^verbatim>\<open>verifyFill\<close> threw, or it returned an answer.
\<close>

datatype verdict = NotReached | Threw thrown | Answered bool

definition verification ::
  "('v, 'd) config \<Rightarrow> 'd locator \<Rightarrow> 'v fill_value \<Rightarrow> int \<Rightarrow> 'd page_state \<Rightarrow> verdict" where
  "verification cfg loc v attempt pg =
     (if \<not> printable v then NotReached
      else
        let k = closures pg;
            pg1 = registerTrackers cfg k (pg\<lparr> closures := Suc k \<rparr>)
        in case beforeVerify cfg k loc v attempt (pg1, 0) of
             (Inl e, st5) \<Rightarrow> NotReached
           | (Inr u, st5) \<Rightarrow>
               (case fst (verifyFill k loc v (verifyAction cfg) st5) of
                  Inl e \<Rightarrow> Threw e
                | Inr isValid \<Rightarrow> Answered isValid))"

text \<open>The verifications of the passes of the loop, one for each pass it makes.\<close>

function verifications ::
  "('v, 'd) config \<Rightarrow> 'd locator \<Rightarrow> 'v fill_value \<Rightarrow> int \<Rightarrow> 'd page_state \<Rightarrow> verdict list" where
  "verifications cfg loc v attempt pg =
     (if attempt \<le> maxRetries cfg + 1
      then verification cfg loc v attempt pg
             # (case attemptOnce cfg loc v attempt pg of
                  (Return r, pg1) \<Rightarrow> []
                | (Continue m, pg1) \<Rightarrow> verifications cfg loc v (attempt + 1) pg1
                | (Raise e, pg1) \<Rightarrow> [])
      else [])"
  by pat_completeness auto
termination
  by (relation "measure (\<lambda>(cfg, loc, v, attempt, pg). nat (maxRetries cfg + 2 - attempt))")
     auto

declare verifications.simps [simp del]

subsection \<open>fillAndAssert and fillMultiple\<close>

text \<open>
  \<^verbatim>\<open>
  const result = await this.fillWithRetry(locator, value, options);
  if (!result.success) {
    throw new Error(`...: ${result.error}\n` + ... + `...: "${value}"\n` + ...);
  }
  \<close>
  The text of the error is built from the value, which throws instead for a value that
  cannot be converted to a string.
\<close>

definition fillAndAssert ::
  "'d locator \<Rightarrow> 'v fill_value \<Rightarrow> ('v, 'd) FillOptions \<Rightarrow> 'd page_state
     \<Rightarrow> (thrown + unit) \<times> 'd page_state" where
  "fillAndAssert loc v options pg =
     andThen (fillWithRetry loc v options pg)
       (\<lambda>result pg1.
          if \<not> success result
          then (if printable v then (Inl FillFailed, pg1) else (Inl NotPrintable, pg1))
          else (Inr (), pg1))"

text \<open>
  A field of \<^verbatim>\<open>fillMultiple\<close>, and \<^verbatim>\<open>{ ...globalOptions, ...field.options }\<close>: a key
  that is present in the field's options, be it with the value \<^verbatim>\<open>undefined\<close>, takes the
  place of the same key of the global ones; a key absent from them leaves the global one.
  Spreading an options object that is \<^verbatim>\<open>undefined\<close> (\<open>None\<close>) copies nothing.
\<close>

record ('v, 'd) field =
  field_locator :: "'d locator"
  field_value :: "'v fill_value"
  field_options :: "('v, 'd) FillOptions option"

definition spreadKey :: "'a optional \<Rightarrow> 'a optional \<Rightarrow> 'a optional" where
  "spreadKey g f = (case f of Absent \<Rightarrow> g | Undefined \<Rightarrow> Undefined | Given y \<Rightarrow> Given y)"

definition orEmpty :: "('v, 'd) FillOptions option \<Rightarrow> ('v, 'd) FillOptions" where
  "orEmpty options = (case options of None \<Rightarrow> noOptions | Some opts \<Rightarrow> opts)"

definition spread ::
  "('v, 'd) FillOptions option \<Rightarrow> ('v, 'd) FillOptions option \<Rightarrow> ('v, 'd) FillOptions" where
  "spread globalOptions fieldOptions =
     (let g = orEmpty globalOptions; f = orEmpty fieldOptions
      in \<lparr> maxRetries_opt = spreadKey (maxRetries_opt g) (maxRetries_opt f),
           retryDelay_opt = spreadKey (retryDelay_opt g) (retryDelay_opt f),
           waitAfterBlur_opt = spreadKey (waitAfterBlur_opt g) (waitAfterBlur_opt f),
           waitBeforeVerify_opt = spreadKey (waitBeforeVerify_opt g) (waitBeforeVerify_opt f),
           waitForRequests_opt = spreadKey (waitForRequests_opt g) (waitForRequests_opt f),
           requestTimeout_opt = spreadKey (requestTimeout_opt g) (requestTimeout_opt f),
           clearOnRetry_opt = spreadKey (clearOnRetry_opt g) (clearOnRetry_opt f),
           fillAction_opt = spreadKey (fillAction_opt g) (fillAction_opt f),
           verifyAction_opt = spreadKey (verifyAction_opt g) (verifyAction_opt f),
           debug_opt = spreadKey (debug_opt g) (debug_opt f) \<rparr>)"

text \<open>
  \<^verbatim>\<open>
  const results: FillResult[] = [];
  for (const field of fields) {
    const options = { ...globalOptions, ...field.options };
    const result = await this.fillWithRetry(field.locator, field.value, options);
    results.push(result);
    if (!result.success && globalOptions?.debug) { console.warn(...); }
  }
  return results;
  \<close>
  The loop with its accumulator \<open>results\<close>. There is no \<^verbatim>\<open>try\<close> around the call of
  \<^verbatim>\<open>fillWithRetry\<close>: when it rejects, the loop is left, the results so far are lost and
  \<^verbatim>\<open>fillMultiple\<close> rejects with the same error.
\<close>

fun fillLoop ::
  "('v, 'd) field list \<Rightarrow> ('v, 'd) FillOptions option \<Rightarrow> 'v FillResult list \<Rightarrow> 'd page_state
     \<Rightarrow> (thrown + 'v FillResult list) \<times> 'd page_state" where
  "fillLoop [] globalOptions results pg = (Inr results, pg)"
| "fillLoop (fld # flds) globalOptions results pg =
     andThen
       (fillWithRetry (field_locator fld) (field_value fld)
          (spread globalOptions (field_options fld)) pg)
       (\<lambda>result pg1. fillLoop flds globalOptions (results @ [result]) pg1)"

definition fillMultiple ::
  "('v, 'd) field list \<Rightarrow> ('v, 'd) FillOptions option \<Rightarrow> 'd page_state
     \<Rightarrow> (thrown + 'v FillResult list) \<times> 'd page_state" where
  "fillMultiple flds globalOptions pg = fillLoop flds globalOptions [] pg"

text \<open>
  The calls of the engine the batch makes, as the specification words it: the engine is run
  on each field in input order, each on the page the field before it left. The outcomes
  are collected in input order, up to and with the first call that rejects.
\<close>

fun sequentially ::
  "('v, 'd) field list \<Rightarrow> ('v, 'd) FillOptions option \<Rightarrow> 'd page_state
     \<Rightarrow> (thrown + 'v FillResult) list \<times> 'd page_state" where
  "sequentially [] globalOptions pg = ([], pg)"
| "sequentially (fld # flds) globalOptions pg =
     (case fillWithRetry (field_locator fld) (field_value fld)
             (spread globalOptions (field_options fld)) pg of
        (Inl e, pg1) \<Rightarrow> ([Inl e], pg1)
      | (Inr r, pg1) \<Rightarrow>
          (case sequentially flds globalOptions pg1 of
             (rs, pg2) \<Rightarrow> (Inr r # rs, pg2)))"

fun resolved :: "(thrown + 'v FillResult) \<Rightarrow> bool" where
  "resolved (Inl e) = False"
| "resolved (Inr r) = True"

subsection \<open>Notions for the properties\<close>

text \<open>The attempt whose variable a listener changes, and the three registrations of attempt \<open>k\<close>.\<close>

fun trackerOwner :: "tracker \<Rightarrow> nat" where
  "trackerOwner (TrackRequest j) = j"
| "trackerOwner (TrackFinish j) = j"

definition ownTrackers :: "nat \<Rightarrow> (event_name \<times> tracker) list" where
  "ownTrackers k =
     [(EvRequest, TrackRequest k), (EvRequestFinished, TrackFinish k), (EvRequestFailed, TrackFinish k)]"

text \<open>
  The listeners on a page are those of attempts already started: the number of each is
  below the number the next attempt gets.
\<close>

definition wellNumbered :: "'d page_state \<Rightarrow> bool" where
  "wellNumbered pg = (\<forall>l\<in>set (registry pg). trackerOwner (snd l) < closures pg)"

text \<open>What the steps of an attempt leave alone: the listeners and the count of closures.\<close>

definition frame :: "'d page_state \<times> int \<Rightarrow> (event_name \<times> tracker) list \<times> nat" where
  "frame st = (registry (fst st), closures (fst st))"


section \<open>Example inputs\<close>

text \<open>
  The URLs of the example objects and histories below are absolute, as the URLs are that the
  browser reports: \<^verbatim>\<open>new URL(url)\<close> parses them. They have no query.
\<close>

definition exampleRuntime :: "string runtime" where
  "exampleRuntime =
     \<lparr> searchParams = (\<lambda>u. []), jsonParse = (\<lambda>s. if s = ''{}'' then Some s else None) \<rparr>"

definition exampleRequest :: "string \<Rightarrow> request" where
  "exampleRequest u =
     \<lparr> req_url = u, req_method = ''GET'', req_headers = [], req_postDataBuffer = None \<rparr>"

definition exampleResponse :: "string \<Rightarrow> int \<Rightarrow> response" where
  "exampleResponse u code =
     \<lparr> res_url = u, res_status = code, res_statusText = ''OK'', res_headers = [],
       res_text = Some ''hello'', res_request = exampleRequest u \<rparr>"

definition examplePair :: "string \<Rightarrow> int \<Rightarrow> string CapturedHttpData" where
  "examplePair u code = capturedPair exampleRuntime (exampleResponse u code)"

definition quietTicks :: "nat \<Rightarrow> tick" where
  "quietTicks n = \<lparr> tick_extra = 0, tick_events = [] \<rparr>"

text \<open>Sleeps that run 5 ms late, during each of which a response of another URL arrives.\<close>

definition otherTicks :: "nat \<Rightarrow> tick" where
  "otherTicks n =
     \<lparr> tick_extra = 5, tick_events = [ResponseEvent (exampleResponse ''https://app.test/static/logo'' 200)] \<rparr>"

text \<open>A started object with the substring pattern ``/api''.\<close>

definition startedApi :: "string capture_state" where
  "startedApi = startCapture (newHttpCapture (Substring ''/api'') 0 0)"

text \<open>An object that has captured two responses, that of ``/api/a'' before that of ``/api/b''.\<close>

definition twoCaptured :: "string capture_state" where
  "twoCaptured =
     fold (emit exampleRuntime)
       [ResponseEvent (exampleResponse ''https://app.test/api/a'' 200), BodySettled 0,
        ResponseEvent (exampleResponse ''https://app.test/api/b'' 201), BodySettled 0]
       startedApi"

text \<open>The regular expression of a literal text, with the global and the sticky flag as given.\<close>

definition literalRegExp :: "string \<Rightarrow> bool \<Rightarrow> bool \<Rightarrow> regexp" where
  "literalRegExp lit g y =
     \<lparr> matchAt = (\<lambda>s i. if prefix lit (drop i s) then Some (i + length lit) else None),
       global = g, sticky = y \<rparr>"

text \<open>A history without a matching response: a matching request, and the response of
  another URL.\<close>

definition quietHistory :: "action list" where
  "quietHistory =
     [CallStartCapture,
      Emit (RequestEvent (exampleRequest ''https://app.test/api/x'')),
      Emit (ResponseEvent (exampleResponse ''https://app.test/static/app.js'' 200)),
      Emit (BodySettled 0)]"

text \<open>Two matching responses and one of another URL; the read of the first has settled.\<close>

definition threeResponses :: "event list" where
  "threeResponses =
     [ResponseEvent (exampleResponse ''https://app.test/api/a'' 200),
      RequestEvent (exampleRequest ''https://app.test/api/b''),
      ResponseEvent (exampleResponse ''https://app.test/static/app.js'' 200),
      ResponseEvent (exampleResponse ''https://app.test/api/b'' 201),
      BodySettled 0]"

text \<open>Two matching responses; the read of the second settles before the read of the first.\<close>

definition overtakingHistory :: "action list" where
  "overtakingHistory =
     [CallStartCapture,
      Emit (ResponseEvent (exampleResponse ''https://app.test/api/a'' 200)),
      Emit (ResponseEvent (exampleResponse ''https://app.test/api/b'' 201)),
      Emit (BodySettled 1),
      Emit (BodySettled 0)]"

text \<open>Two matching responses, and a second call of \<open>startCapture\<close> between them.\<close>

definition restartedHistory :: "action list" where
  "restartedHistory =
     [CallStartCapture,
      Emit (ResponseEvent (exampleResponse ''https://app.test/api/a'' 200)),
      Emit (BodySettled 0),
      CallStartCapture,
      Emit (ResponseEvent (exampleResponse ''https://app.test/api/b'' 201)),
      Emit (BodySettled 0)]"

text \<open>
  A matching response whose body is still being read when the capture is stopped and
  started again; the read settles after the second \<open>startCapture\<close>.
\<close>

definition staleHistory :: "action list" where
  "staleHistory =
     [CallStartCapture,
      Emit (ResponseEvent (exampleResponse ''https://app.test/api/a'' 200)),
      CallStopCapture,
      CallStartCapture,
      Emit (BodySettled 0)]"

text \<open>
  A call that settles at once with the given outcome, without network events. A locator
  of a field that holds \<open>content\<close>; the browser state is the list of the sleeps asked
  for so far.
\<close>

definition settledWith :: "(rejection + 'r) \<Rightarrow> 'd \<Rightarrow> ('r, 'd) settled" where
  "settledWith out d = \<lparr> outcome = out, during = [], took = 0, after = d \<rparr>"

definition loggingLocator :: "string \<Rightarrow> int list locator" where
  "loggingLocator content =
     \<lparr> clear_field = settledWith (Inr ()),
       inputValue = settledWith (Inr content),
       isDisabled = settledWith (Inr False),
       pageWaitForTimeout = (\<lambda>ms d. settledWith (Inr ()) (d @ [ms])) \<rparr>"

definition blankPage :: "int list page_state" where
  "blankPage = \<lparr> dom = [], clock = 0, registry = [], closures = 0 \<rparr>"

text \<open>A page on which somebody else's listener is registered.\<close>

definition busyPage :: "int list page_state" where
  "busyPage = \<lparr> dom = [], clock = 0, registry = [(EvRequest, TrackRequest 3)], closures = 5 \<rparr>"

text \<open>A fill action that starts a request which fails while the action is awaited, and a
  predicate that is always false.\<close>

definition requestingFill :: "bool fill_value \<Rightarrow> int list \<Rightarrow> (unit, int list) settled" where
  "requestingFill v d =
     \<lparr> outcome = Inr (), during = [EvRequest, EvRequestFailed], took = 20, after = d \<rparr>"

definition neverVerified :: "bool fill_value \<Rightarrow> int list \<Rightarrow> (bool, int list) settled" where
  "neverVerified v d = settledWith (Inr False) d"

definition alwaysVerified :: "bool fill_value \<Rightarrow> int list \<Rightarrow> (bool, int list) settled" where
  "alwaysVerified v d = settledWith (Inr True) d"

definition twoRetries :: "(bool, int list) FillOptions" where
  "twoRetries =
     noOptions\<lparr> maxRetries_opt := Given 2, fillAction_opt := Given requestingFill,
                verifyAction_opt := Given neverVerified \<rparr>"

text \<open>A locator during whose sleeps a request finishes that was started before.\<close>

definition lateFinishLocator :: "int list locator" where
  "lateFinishLocator =
     (loggingLocator ''abc'')
       \<lparr> pageWaitForTimeout :=
           (\<lambda>ms d. \<lparr> outcome = Inr (), during = [EvRequestFinished], took = 0, after = d @ [ms] \<rparr>) \<rparr>"

text \<open>Three fields: the second never shows the intended text.\<close>

definition threeFields :: "(bool, int list) field list" where
  "threeFields =
     [\<lparr> field_locator = loggingLocator ''alice'', field_value = Str ''alice'',
        field_options = None \<rparr>,
      \<lparr> field_locator = loggingLocator ''stale'', field_value = Str ''bob'',
        field_options = Some (noOptions\<lparr> maxRetries_opt := Given 1 \<rparr>) \<rparr>,
      \<lparr> field_locator = loggingLocator [], field_value = Other True,
        field_options = Some (noOptions\<lparr> fillAction_opt := Given requestingFill,
                                          verifyAction_opt := Given alwaysVerified \<rparr>) \<rparr>]"

text \<open>
  A fill action that rejects with \<^verbatim>\<open>undefined\<close>, as
  \<^verbatim>\<open>async () => Promise.reject()\<close> does, one that rejects with
  \<^verbatim>\<open>new Error('boom')\<close>, and three fields of which the second has the first.
\<close>

definition rejectingFill :: "bool fill_value \<Rightarrow> int list \<Rightarrow> (unit, int list) settled" where
  "rejectingFill v d = settledWith (Inl WithoutText) d"

definition throwingFill :: "bool fill_value \<Rightarrow> int list \<Rightarrow> (unit, int list) settled" where
  "throwingFill v d = settledWith (Inl (WithText ''boom'')) d"

definition rejectingFields :: "(bool, int list) field list" where
  "rejectingFields =
     [\<lparr> field_locator = loggingLocator ''alice'', field_value = Str ''alice'',
        field_options = None \<rparr>,
      \<lparr> field_locator = loggingLocator ''stale'', field_value = Str ''bob'',
        field_options = Some (noOptions\<lparr> fillAction_opt := Given rejectingFill \<rparr>) \<rparr>,
      \<lparr> field_locator = loggingLocator ''carol'', field_value = Str ''carol'',
        field_options = None \<rparr>]"

text \<open>The same three fields with a fill action that rejects with \<^verbatim>\<open>new Error('boom')\<close>.\<close>

definition throwingFields :: "(bool, int list) field list" where
  "throwingFields =
     [\<lparr> field_locator = loggingLocator ''alice'', field_value = Str ''alice'',
        field_options = None \<rparr>,
      \<lparr> field_locator = loggingLocator ''stale'', field_value = Str ''bob'',
        field_options = Some (noOptions\<lparr> fillAction_opt := Given throwingFill \<rparr>) \<rparr>,
      \<lparr> field_locator = loggingLocator ''carol'', field_value = Str ''carol'',
        field_options = None \<rparr>]"


section \<open>Properties of the capture correlator\<close>

lemma str_includes_iff: "str_includes u p \<longleftrightarrow> (\<exists>a b. u = a @ p @ b)"
proof (induction u)
  case Nil
  then show ?case by auto
next
  case (Cons c cs)
  show ?case
  proof
    assume "str_includes (c # cs) p"
    then consider "prefix p (c # cs)" | "str_includes cs p" by auto
    then show "\<exists>a b. c # cs = a @ p @ b"
    proof cases
      case 1
      then obtain b where "c # cs = p @ b" by (auto simp: prefix_def)
      then have "c # cs = [] @ p @ b" by simp
      then show ?thesis by blast
    next
      case 2
      with Cons obtain a b where "cs = a @ p @ b" by auto
      then have "c # cs = (c # a) @ p @ b" by simp
      then show ?thesis by blast
    qed
  next
    assume "\<exists>a b. c # cs = a @ p @ b"
    then obtain a b where ab: "c # cs = a @ p @ b" by auto
    show "str_includes (c # cs) p"
    proof (cases a)
      case Nil
      with ab have "prefix p (c # cs)" by (simp add: prefix_def)
      then show ?thesis by simp
    next
      case (Cons x a')
      with ab have "cs = a' @ p @ b" by simp
      with Cons.IH have "str_includes cs p" by blast
      then show ?thesis by simp
    qed
  qed
qed

lemma find_Some_set: "List.find P xs = Some x \<Longrightarrow> x \<in> set xs \<and> P x"
  by (induction xs) (auto split: if_splits)

lemma regexpSearch_Some:
  "regexpSearch m s i = Some e \<Longrightarrow> \<exists>j. i \<le> j \<and> j \<le> length s \<and> m s j = Some e"
proof -
  assume a: "regexpSearch m s i = Some e"
  then obtain j where j: "List.find (\<lambda>j. m s j \<noteq> None) [i ..< Suc (length s)] = Some j"
    and e: "m s j = Some e"
    by (auto simp: regexpSearch_def split: option.splits)
  from find_Some_set [OF j] have "i \<le> j" "j \<le> length s" by (simp_all del: upt_Suc)
  with e show ?thesis by blast
qed

lemma regexpSearch_None:
  "regexpSearch m s i = None \<longleftrightarrow> (\<forall>j. i \<le> j \<and> j \<le> length s \<longrightarrow> m s j = None)"
proof
  assume a: "regexpSearch m s i = None"
  show "\<forall>j. i \<le> j \<and> j \<le> length s \<longrightarrow> m s j = None"
  proof (cases "List.find (\<lambda>j. m s j \<noteq> None) [i ..< Suc (length s)]")
    case None
    then show ?thesis by (simp add: find_None_iff del: upt_Suc)
  next
    case (Some j)
    with a have "m s j = None" by (simp add: regexpSearch_def)
    with find_Some_set [OF Some] show ?thesis by simp
  qed
next
  assume a: "\<forall>j. i \<le> j \<and> j \<le> length s \<longrightarrow> m s j = None"
  then have "List.find (\<lambda>j. m s j \<noteq> None) [i ..< Suc (length s)] = None"
    by (simp add: find_None_iff del: upt_Suc)
  then show "regexpSearch m s i = None" by (simp add: regexpSearch_def)
qed

lemma url_matches_RegExp:
  "url_matches (RegExp r) u \<longleftrightarrow> (\<exists>j\<le>length u. matchAt r u j \<noteq> None)"
  by (auto simp: list_ex_iff less_Suc_eq_le simp del: upt_Suc)

lemma regexpTest_sound:
  assumes "fst (regexpTest r li u)"
  shows "\<exists>j\<le>length u. matchAt r u j \<noteq> None"
proof -
  define start where "start = (if global r \<or> sticky r then li else 0)"
  from assms have le: "start \<le> length u"
    by (auto simp: regexpTest_def Let_def start_def split: if_splits)
  show ?thesis
  proof (cases "sticky r")
    case True
    with assms le have "matchAt r u start \<noteq> None"
      by (auto simp: regexpTest_def Let_def start_def split: if_splits option.splits)
    with le show ?thesis by blast
  next
    case False
    with assms le obtain e where "regexpSearch (matchAt r) u start = Some e"
      by (auto simp: regexpTest_def Let_def start_def split: if_splits option.splits)
    from regexpSearch_Some [OF this] show ?thesis by auto
  qed
qed

lemma matchesPattern_sound: "fst (matchesPattern p li u) \<Longrightarrow> url_matches p u"
  by (cases p) (simp_all only: matchesPattern.simps url_matches_RegExp regexpTest_sound, simp)

lemma matchesPattern_stateless:
  "stateless p \<Longrightarrow> matchesPattern p li u = (url_matches p u, li)"
proof (cases p)
  case (Substring s)
  then show ?thesis by simp
next
  case (RegExp r)
  assume "stateless p"
  with RegExp have f: "\<not> global r" "\<not> sticky r" by simp_all
  show ?thesis
  proof (cases "regexpSearch (matchAt r) u 0")
    case None
    then have "\<not> url_matches (RegExp r) u"
      unfolding url_matches_RegExp regexpSearch_None by auto
    with None f RegExp show ?thesis by (simp add: regexpTest_def)
  next
    case (Some e)
    then have "url_matches (RegExp r) u"
      unfolding url_matches_RegExp by (auto dest!: regexpSearch_Some)
    with Some f RegExp show ?thesis by (simp add: regexpTest_def)
  qed
qed


lemma url_matches_fresh_test:
  assumes "\<not> sticky r"
  shows "fst (regexpTest r 0 u) = url_matches (RegExp r) u"
proof (cases "regexpSearch (matchAt r) u 0")
  case None
  then have "\<not> url_matches (RegExp r) u"
    unfolding url_matches_RegExp regexpSearch_None by auto
  with None assms show ?thesis by (simp add: regexpTest_def)
next
  case (Some e)
  then have "url_matches (RegExp r) u"
    unfolding url_matches_RegExp by (auto dest!: regexpSearch_Some)
  with Some assms show ?thesis by (simp add: regexpTest_def)
qed

lemmas example_defs =
  startedApi_def startCapture_def stopCapture_def newHttpCapture_def addListener_def
  removeListener_def runResponseHandler_def runRequestHandler_def resumeResponseHandler_def
  examplePair_def exampleResponse_def exampleRequest_def run_def

lemma twoCaptured_data:
  "capturedData twoCaptured = [examplePair ''https://app.test/api/a'' 200, examplePair ''https://app.test/api/b'' 201]"
  by (simp add: twoCaptured_def example_defs)

text \<open>
  C2. When the buffer is not empty at the call, \<open>waitForNextCapture\<close> returns the pair
  appended last, and it returns it at once: the state it leaves, with its clock and its
  suspended handlers, is the state of the call, so no sleep has happened.
\<close>

theorem waitForNextCapture_latest:
  "capturedData st \<noteq> [] \<Longrightarrow>
     waitForNextCapture js timeout ticks st = (Inr (last (capturedData st)), st)"
  by (simp add: waitForNextCapture_def)

theorem waitForNextCapture_latest_witness:
  "capturedData twoCaptured \<noteq> [] \<and>
   waitForNextCapture exampleRuntime 1000 quietTicks twoCaptured
     = (Inr (examplePair ''https://app.test/api/b'' 201), twoCaptured)"
  using waitForNextCapture_latest [of twoCaptured exampleRuntime 1000 quietTicks]
  by (simp add: twoCaptured_data)

lemma matchesPattern_substring:
  "fst (matchesPattern (Substring p) li u) \<longleftrightarrow> (\<exists>a b. u = a @ p @ b)"
  by (simp add: str_includes_iff)

text \<open>
  C3. The claim is that the match is a stateless function of pattern and URL, so that two
  evaluations with the same pattern on the same URL agree. For a substring, and for a
  regular expression without the global and the sticky flag, that is so
  (\<open>matchesPattern_substring\<close>, \<open>matchesPattern_stateless\<close>). For a regular expression
  with the global flag it is not: \<^verbatim>\<open>test\<close> leaves the end of its match in
  \<^verbatim>\<open>lastIndex\<close> and the next call searches from there. With the pattern \<^verbatim>\<open>/user/g\<close> the
  first evaluation on ``/api/user'' answers true and the second false; and since the request
  handler evaluates the pattern before the response handler does, the response of a
  matching request is not recorded at all.
\<close>

theorem matchesPattern_global_regexp_not_repeatable:
  "matchesPattern (RegExp (literalRegExp ''user'' True False)) 0 ''/api/user'' = (True, 9) \<and>
   matchesPattern (RegExp (literalRegExp ''user'' True False)) 9 ''/api/user'' = (False, 0) \<and>
   fst (matchesPattern (RegExp (literalRegExp ''user'' True False))
          (snd (matchesPattern (RegExp (literalRegExp ''user'' True False)) 0 ''/api/user''))
          ''/api/user'')
     \<noteq> fst (matchesPattern (RegExp (literalRegExp ''user'' True False)) 0 ''/api/user'') \<and>
   url_matches (RegExp (literalRegExp ''user'' True False)) ''/api/user'' \<and>
   pending (fold (emit exampleRuntime)
              [RequestEvent (exampleRequest ''/api/user''),
               ResponseEvent (exampleResponse ''/api/user'' 200)]
              (startCapture (newHttpCapture (RegExp (literalRegExp ''user'' True False)) 0 0)))
     = []"
  by (simp add: startCapture_def newHttpCapture_def addListener_def
      runResponseHandler_def runRequestHandler_def exampleResponse_def exampleRequest_def
      regexpTest_def regexpSearch_def literalRegExp_def)

lemma fold_same_keeps:
  "(\<And>s. P s \<Longrightarrow> P (f s)) \<Longrightarrow> P st \<Longrightarrow> P (fold (\<lambda>l. f) ls st)"
  by (induction ls arbitrary: st) simp_all

lemma runRequestHandler_fields [simp]:
  "capturedData (runRequestHandler rq st) = capturedData st"
  "pending (runRequestHandler rq st) = pending st"
  "listeners (runRequestHandler rq st) = listeners st"
  "requestHandler (runRequestHandler rq st) = requestHandler st"
  "responseHandler (runRequestHandler rq st) = responseHandler st"
  "isCapturing (runRequestHandler rq st) = isCapturing st"
  "urlPattern (runRequestHandler rq st) = urlPattern st"
  by (simp_all add: runRequestHandler_def split: prod.splits)

lemma runResponseHandler_fields [simp]:
  "capturedData (runResponseHandler rs st) = capturedData st"
  "listeners (runResponseHandler rs st) = listeners st"
  "requestHandler (runResponseHandler rs st) = requestHandler st"
  "responseHandler (runResponseHandler rs st) = responseHandler st"
  "isCapturing (runResponseHandler rs st) = isCapturing st"
  "urlPattern (runResponseHandler rs st) = urlPattern st"
  by (simp_all add: runResponseHandler_def split: prod.splits)

lemma resumeResponseHandler_fields [simp]:
  "listeners (resumeResponseHandler js i st) = listeners st"
  "requestHandler (resumeResponseHandler js i st) = requestHandler st"
  "responseHandler (resumeResponseHandler js i st) = responseHandler st"
  "isCapturing (resumeResponseHandler js i st) = isCapturing st"
  "urlPattern (resumeResponseHandler js i st) = urlPattern st"
  by (simp_all add: resumeResponseHandler_def)

lemma control_emit [simp]: "control (emit js e st) = control st"
proof (cases e)
  case (RequestEvent rq)
  have "control (fold (\<lambda>l. runRequestHandler rq) ls st) = control st" for ls
    by (rule fold_same_keeps [where P = "\<lambda>s. control s = control st"]) (simp_all add: control_def)
  with RequestEvent show ?thesis by simp
next
  case (ResponseEvent rs)
  have "control (fold (\<lambda>l. runResponseHandler rs) ls st) = control st" for ls
    by (rule fold_same_keeps [where P = "\<lambda>s. control s = control st"]) (simp_all add: control_def)
  with ResponseEvent show ?thesis by simp
next
  case (BodySettled i)
  then show ?thesis by (simp add: control_def)
qed

lemma consistent_cases:
  assumes "consistent st"
  obtains (capturing) a b where "isCapturing st" "requestHandler st = Some a"
      "responseHandler st = Some b" "listeners st = [(EvRequest, a), (EvResponse, b)]"
    | (idle) "\<not> isCapturing st" "requestHandler st = None" "responseHandler st = None"
      "listeners st = []"
  using assms unfolding consistent_def control_def
  by (cases "(isCapturing st, requestHandler st, responseHandler st, listeners st, urlPattern st)"
      rule: wired.cases) auto

lemma consistent_new: "consistent (newHttpCapture p li t)"
  by (simp add: consistent_def control_def newHttpCapture_def)

lemma consistent_startCapture: "consistent st \<Longrightarrow> consistent (startCapture st)"
  by (erule consistent_cases)
     (simp_all add: consistent_def control_def startCapture_def addListener_def Let_def)

lemma removeListener_pair [simp]:
  "removeListener (EvRequest, a) [(EvRequest, a), (EvResponse, b)] = [(EvResponse, b)]"
  "removeListener (EvResponse, b) [(EvResponse, b)] = []"
  by (simp_all add: removeListener_def)

lemma stopCapture_consistent:
  assumes "consistent st"
  shows "stopCapture st = st\<lparr> isCapturing := False, listeners := [], requestHandler := None, responseHandler := None \<rparr>"
  using assms by (rule consistent_cases) (simp_all add: stopCapture_def)

lemma consistent_stopCapture: "consistent st \<Longrightarrow> consistent (stopCapture st)"
  by (simp add: stopCapture_consistent) (simp add: consistent_def control_def)

lemma consistent_clear: "consistent st \<Longrightarrow> consistent (clear st)"
  by (simp add: consistent_def control_def clear_def)

lemma consistent_perform: "consistent st \<Longrightarrow> consistent (perform js a st)"
  by (cases a)
     (simp_all add: consistent_startCapture consistent_stopCapture consistent_clear,
      simp add: consistent_def)

lemma consistent_run: "consistent st \<Longrightarrow> consistent (run js acts st)"
  unfolding run_def by (induction acts arbitrary: st) (simp_all add: consistent_perform)

lemma emit_no_listeners:
  "listeners st = [] \<Longrightarrow> emit js (ResponseEvent rs) st = st"
  "listeners st = [] \<Longrightarrow> emit js (RequestEvent rq) st = st"
  by simp_all


text \<open>
  C7. For an object in any state its methods and the event loop can bring it to,
  \<open>stopCapture\<close> is idempotent, leaves the buffer as it is, and leaves no listener of the
  object registered and no handler held; a response the page emits afterwards, whatever its
  URL, changes nothing: the buffer gets no new entry and no run of the handler is started.
\<close>

theorem stopCapture_frame:
  "stopCapture (stopCapture (run js acts (newHttpCapture p li t)))
     = stopCapture (run js acts (newHttpCapture p li t)) \<and>
   capturedData (stopCapture (run js acts (newHttpCapture p li t)))
     = capturedData (run js acts (newHttpCapture p li t)) \<and>
   listeners (stopCapture (run js acts (newHttpCapture p li t))) = [] \<and>
   requestHandler (stopCapture (run js acts (newHttpCapture p li t))) = None \<and>
   responseHandler (stopCapture (run js acts (newHttpCapture p li t))) = None \<and>
   emit js (ResponseEvent rs) (stopCapture (run js acts (newHttpCapture p li t)))
     = stopCapture (run js acts (newHttpCapture p li t))"
proof -
  define st :: "'a capture_state" where "st = run js acts (newHttpCapture p li t)"
  have c: "consistent st"
    unfolding st_def by (rule consistent_run [OF consistent_new])
  have "\<not> isCapturing (stopCapture st)"
    by (simp add: stopCapture_def Let_def split: option.splits)
  then have idem: "stopCapture (stopCapture st) = stopCapture st"
    by (simp add: stopCapture_def [of "stopCapture st"])
  have shape: "stopCapture st = st\<lparr> isCapturing := False, listeners := [],
      requestHandler := None, responseHandler := None \<rparr>"
    by (rule stopCapture_consistent [OF c])
  have none: "listeners (stopCapture st) = []" by (simp add: shape)
  show ?thesis
    unfolding st_def [symmetric]
    using idem none by (simp add: shape)
qed

theorem stopCapture_frame_witness:
  "stopCapture (stopCapture twoCaptured) = stopCapture twoCaptured \<and>
   capturedData (stopCapture twoCaptured) = [examplePair ''https://app.test/api/a'' 200, examplePair ''https://app.test/api/b'' 201] \<and>
   listeners (stopCapture twoCaptured) = [] \<and>
   emit exampleRuntime (ResponseEvent (exampleResponse ''https://app.test/api/c'' 200)) (stopCapture twoCaptured)
     = stopCapture twoCaptured"
proof -
  have h: "twoCaptured = run exampleRuntime
      [CallStartCapture,
       Emit (ResponseEvent (exampleResponse ''https://app.test/api/a'' 200)), Emit (BodySettled 0),
       Emit (ResponseEvent (exampleResponse ''https://app.test/api/b'' 201)), Emit (BodySettled 0)]
      (newHttpCapture (Substring ''/api'') 0 0)"
    by (simp add: twoCaptured_def run_def startedApi_def)
  show ?thesis
    using stopCapture_frame [of exampleRuntime
      "[CallStartCapture,
       Emit (ResponseEvent (exampleResponse ''https://app.test/api/a'' 200)), Emit (BodySettled 0),
       Emit (ResponseEvent (exampleResponse ''https://app.test/api/b'' 201)), Emit (BodySettled 0)]"
      "Substring ''/api''" 0 0 "exampleResponse ''https://app.test/api/c'' 200"]
    unfolding h [symmetric] by (simp add: twoCaptured_data)
qed

lemma quiet_emit:
  assumes "capturedData st = []" "pending st = []" "\<not> matchingResponse (urlPattern st) e"
  shows "capturedData (emit js e st) = [] \<and> pending (emit js e st) = []"
proof (cases e)
  case (RequestEvent rq)
  have all: "capturedData (fold (\<lambda>l. runRequestHandler rq) ls st) = [] \<and>
        pending (fold (\<lambda>l. runRequestHandler rq) ls st) = []" for ls
    by (rule fold_same_keeps [where P = "\<lambda>s. capturedData s = [] \<and> pending s = []"])
       (simp_all add: assms)
  show ?thesis unfolding RequestEvent by (simp add: all)
next
  case (ResponseEvent rs)
  from assms(3) ResponseEvent have nm: "\<not> url_matches (urlPattern st) (res_url rs)" by simp
  have step: "capturedData (runResponseHandler rs s) = [] \<and> pending (runResponseHandler rs s) = []
      \<and> urlPattern (runResponseHandler rs s) = urlPattern st"
    if "capturedData s = [] \<and> pending s = [] \<and> urlPattern s = urlPattern st" for s
  proof -
    obtain m li where ml: "matchesPattern (urlPattern s) (lastIndex s) (res_url rs) = (m, li)"
      by (cases "matchesPattern (urlPattern s) (lastIndex s) (res_url rs)")
    with nm that matchesPattern_sound [of "urlPattern s" "lastIndex s" "res_url rs"]
    have "\<not> m" by auto
    with that ml show ?thesis by (simp add: runResponseHandler_def)
  qed
  have all: "capturedData (fold (\<lambda>l. runResponseHandler rs) ls st) = [] \<and>
        pending (fold (\<lambda>l. runResponseHandler rs) ls st) = [] \<and>
        urlPattern (fold (\<lambda>l. runResponseHandler rs) ls st) = urlPattern st" for ls
    by (rule fold_same_keeps [where P = "\<lambda>s. capturedData s = [] \<and> pending s = [] \<and> urlPattern s = urlPattern st"])
       (simp_all add: assms step)
  show ?thesis unfolding ResponseEvent by (simp add: all)
next
  case (BodySettled i)
  with assms show ?thesis by (simp add: resumeResponseHandler_def)
qed

lemma urlPattern_emit [simp]: "urlPattern (emit js e st) = urlPattern st"
  using control_emit [of js e st] by (simp add: control_def)

lemma quiet_emits:
  assumes "capturedData st = []" "pending st = []"
    "\<forall>e\<in>set es. \<not> matchingResponse (urlPattern st) e"
  shows "capturedData (fold (emit js) es st) = [] \<and> pending (fold (emit js) es st) = []
    \<and> urlPattern (fold (emit js) es st) = urlPattern st"
  using assms
proof (induction es arbitrary: st)
  case Nil
  then show ?case by simp
next
  case (Cons e es)
  from Cons.prems have "capturedData (emit js e st) = [] \<and> pending (emit js e st) = []"
    by (intro quiet_emit) simp_all
  moreover from Cons.prems have "\<forall>x\<in>set es. \<not> matchingResponse (urlPattern (emit js e st)) x"
    by simp
  ultimately show ?case using Cons.IH [of "emit js e st"] by simp
qed

lemma quiet_waitForTimeout:
  assumes "capturedData st = []" "pending st = []"
    "\<forall>e\<in>set (tick_events tk). \<not> matchingResponse (urlPattern st) e"
  shows "capturedData (waitForTimeout js ms tk st) = [] \<and> pending (waitForTimeout js ms tk st) = []
    \<and> urlPattern (waitForTimeout js ms tk st) = urlPattern st"
  using quiet_emits [OF assms, of js] by (simp add: waitForTimeout_def)

lemma pollLoop_quiet:
  assumes "capturedData st = []" "pending st = []"
    "\<forall>n. \<forall>e\<in>set (tick_events (ticks n)). \<not> matchingResponse (urlPattern st) e"
  shows "fst (pollLoop js timeout startTime ticks n st) = Inl (TimeoutError timeout) \<and>
         timeout \<le> now (snd (pollLoop js timeout startTime ticks n st)) - startTime"
  using assms
proof (induction js timeout startTime ticks n st rule: pollLoop.induct)
  case (1 js timeout startTime ticks n st)
  show ?case
  proof (cases "now st - startTime < timeout")
    case False
    then show ?thesis by (simp add: pollLoop.simps [of js timeout startTime ticks n st])
  next
    case True
    let ?st' = "waitForTimeout js 100 (ticks n) st"
    from "1.prems" have q: "capturedData ?st' = [] \<and> pending ?st' = [] \<and> urlPattern ?st' = urlPattern st"
      by (intro quiet_waitForTimeout) simp_all
    with "1.prems" have "fst (pollLoop js timeout startTime ticks (Suc n) ?st') = Inl (TimeoutError timeout) \<and>
         timeout \<le> now (snd (pollLoop js timeout startTime ticks (Suc n) ?st')) - startTime"
      by (intro "1.IH" [OF True]) simp_all
    with True "1.prems"(1) show ?thesis
      by (simp add: pollLoop.simps [of js timeout startTime ticks n st])
  qed
qed

lemma urlPattern_calls [simp]:
  "urlPattern (startCapture st) = urlPattern st"
  "urlPattern (stopCapture st) = urlPattern st"
  "urlPattern (clear st) = urlPattern st"
  by (simp_all add: startCapture_def stopCapture_def clear_def Let_def split: option.splits)

lemma urlPattern_perform [simp]: "urlPattern (perform js a st) = urlPattern st"
  by (cases a) simp_all

lemma quiet_perform:
  assumes "capturedData st = []" "pending st = []"
    "\<forall>e\<in>set (delivered [a]). \<not> matchingResponse (urlPattern st) e"
  shows "capturedData (perform js a st) = [] \<and> pending (perform js a st) = []"
proof (cases a)
  case (Emit e)
  with assms show ?thesis by (simp add: quiet_emit)
qed (use assms in \<open>simp_all add: startCapture_def stopCapture_def clear_def Let_def split: option.splits\<close>)

lemma quiet_run:
  assumes "capturedData st = []" "pending st = []"
    "\<forall>e\<in>set (delivered acts). \<not> matchingResponse (urlPattern st) e"
  shows "capturedData (run js acts st) = [] \<and> pending (run js acts st) = []
     \<and> urlPattern (run js acts st) = urlPattern st"
  using assms unfolding run_def
proof (induction acts arbitrary: st)
  case Nil
  then show ?case by simp
next
  case (Cons a acts)
  from Cons.prems have "capturedData (perform js a st) = [] \<and> pending (perform js a st) = []"
    by (intro quiet_perform) (cases a; simp)+
  moreover from Cons.prems
  have "\<forall>e\<in>set (delivered acts). \<not> matchingResponse (urlPattern (perform js a st)) e"
    by (cases a) simp_all
  ultimately show ?case using Cons.IH [of "perform js a st"] by simp
qed

text \<open>
  C5. Take an object with any history since its construction and any sleeps during the call,
  such that no event of the history or of a sleep is a response whose URL matches the
  pattern: the URL contains the substring, or the regular expression has a match in it
  (for an expression without the sticky flag, \<^verbatim>\<open>test\<close> answers true on a fresh
  expression, \<open>url_matches_fresh_test\<close>). Then \<open>waitForNextCapture timeout\<close> ends with
  the timeout error, and the clock has moved by at least \<open>timeout\<close> between the call and
  the error. Each sleep of the loop moves the clock by at least 100, so the loop ends.
\<close>

theorem waitForNextCapture_timeout:
  assumes "\<forall>e\<in>set (delivered acts). \<not> matchingResponse p e"
    and "\<forall>n. \<forall>e\<in>set (tick_events (ticks n)). \<not> matchingResponse p e"
  shows "fst (waitForNextCapture js timeout ticks (run js acts (newHttpCapture p li t)))
           = Inl (TimeoutError timeout) \<and>
         timeout \<le> now (snd (waitForNextCapture js timeout ticks (run js acts (newHttpCapture p li t))))
                     - now (run js acts (newHttpCapture p li t))"
proof -
  define st :: "'a capture_state" where "st = run js acts (newHttpCapture p li t)"
  have "capturedData st = [] \<and> pending st = [] \<and> urlPattern st = p"
    unfolding st_def using quiet_run [of "newHttpCapture p li t" acts js] assms(1)
    by (simp add: newHttpCapture_def)
  with assms(2) show ?thesis
    unfolding st_def [symmetric] waitForNextCapture_def
    using pollLoop_quiet [of st ticks js timeout "now st" 0] by simp
qed


theorem waitForNextCapture_timeout_witness:
  "fst (waitForNextCapture exampleRuntime 250 otherTicks
          (run exampleRuntime quietHistory (newHttpCapture (Substring ''/api'') 0 0)))
     = Inl (TimeoutError 250) \<and>
   250 \<le> now (snd (waitForNextCapture exampleRuntime 250 otherTicks
                      (run exampleRuntime quietHistory (newHttpCapture (Substring ''/api'') 0 0))))
           - now (run exampleRuntime quietHistory (newHttpCapture (Substring ''/api'') 0 0)) \<and>
   now (snd (waitForNextCapture exampleRuntime 250 otherTicks
               (run exampleRuntime quietHistory (newHttpCapture (Substring ''/api'') 0 0)))) = 315"
  using waitForNextCapture_timeout
    [of quietHistory "Substring ''/api''" otherTicks exampleRuntime 250 0 0]
  by (simp add: quietHistory_def otherTicks_def waitForNextCapture_def pollLoop.simps
      waitForTimeout_def example_defs)

lemma now_update_runRequestHandler:
  "runRequestHandler rq (st\<lparr>now := t\<rparr>) = (runRequestHandler rq st)\<lparr>now := t\<rparr>"
  by (simp add: runRequestHandler_def split: prod.splits)

lemma now_update_runResponseHandler:
  "runResponseHandler rs (st\<lparr>now := t\<rparr>) = (runResponseHandler rs st)\<lparr>now := t\<rparr>"
  by (simp add: runResponseHandler_def split: prod.splits)

lemma now_update_fold_same:
  "(\<And>s. f (s\<lparr>now := t\<rparr>) = (f s)\<lparr>now := t\<rparr>) \<Longrightarrow>
     fold (\<lambda>l. f) ls (st\<lparr>now := t\<rparr>) = (fold (\<lambda>l. f) ls st)\<lparr>now := t\<rparr>"
  by (induction ls arbitrary: st) simp_all

lemma now_update_emit: "emit js e (st\<lparr>now := t\<rparr>) = (emit js e st)\<lparr>now := t\<rparr>"
  by (cases e)
     (simp_all add: now_update_fold_same now_update_runRequestHandler
        now_update_runResponseHandler resumeResponseHandler_def)

lemma now_update_emits:
  "fold (emit js) es (st\<lparr>now := t\<rparr>) = (fold (emit js) es st)\<lparr>now := t\<rparr>"
  by (induction es arbitrary: st) (simp_all add: now_update_emit)

lemma sleptEvents_Suc:
  "sleptEvents ticks n (Suc k) = tick_events (ticks n) @ sleptEvents ticks (Suc n) k"
  by (simp add: sleptEvents_def upt_conv_Cons del: upt_Suc)

lemma pollLoop_events:
  "\<exists>k t'. snd (pollLoop js timeout startTime ticks n st)
            = (fold (emit js) (sleptEvents ticks n k) st)\<lparr>now := t'\<rparr>"
proof (induction js timeout startTime ticks n st rule: pollLoop.induct)
  case (1 js timeout startTime ticks n st)
  have stay: "st = (fold (emit js) (sleptEvents ticks n 0) st)\<lparr>now := now st\<rparr>"
    by (simp add: sleptEvents_def)
  show ?case
  proof (cases "now st - startTime < timeout \<and> capturedData st = []")
    case False
    then have "snd (pollLoop js timeout startTime ticks n st) = st"
      by (auto simp: pollLoop.simps [of js timeout startTime ticks n st])
    with stay have "snd (pollLoop js timeout startTime ticks n st)
        = (fold (emit js) (sleptEvents ticks n 0) st)\<lparr>now := now st\<rparr>"
      by simp
    then show ?thesis by (intro exI)
  next
    case True
    let ?st' = "waitForTimeout js 100 (ticks n) st"
    from True "1.IH" obtain k t' where
      k: "snd (pollLoop js timeout startTime ticks (Suc n) ?st')
            = (fold (emit js) (sleptEvents ticks (Suc n) k) ?st')\<lparr>now := t'\<rparr>"
      by auto
    have "snd (pollLoop js timeout startTime ticks n st)
            = (fold (emit js) (sleptEvents ticks n (Suc k)) st)\<lparr>now := t'\<rparr>"
      using True k
      by (simp add: pollLoop.simps [of js timeout startTime ticks n st] sleptEvents_Suc
          waitForTimeout_def now_update_emits)
    then show ?thesis by blast
  qed
qed

lemma waitForNextCapture_events:
  "\<exists>k t'. snd (waitForNextCapture js timeout ticks st)
            = (fold (emit js) (sleptEvents ticks 0 k) st)\<lparr>now := t'\<rparr>"
proof (cases "capturedData st = []")
  case True
  then show ?thesis using pollLoop_events [of js timeout "now st" ticks 0 st]
    by (simp add: waitForNextCapture_def)
next
  case False
  have "st = (fold (emit js) (sleptEvents ticks 0 0) st)\<lparr>now := now st\<rparr>"
    by (simp add: sleptEvents_def)
  with False have "snd (waitForNextCapture js timeout ticks st)
      = (fold (emit js) (sleptEvents ticks 0 0) st)\<lparr>now := now st\<rparr>"
    by (simp add: waitForNextCapture_def)
  then show ?thesis by (intro exI)
qed

lemma resume_first:
  "resumeResponseHandler js 0 st =
     (case pending st of [] \<Rightarrow> st
      | rs # rest \<Rightarrow> st\<lparr> capturedData := capturedData st @ [capturedPair js rs], pending := rest \<rparr>)"
  by (simp add: resumeResponseHandler_def capturedPair_def split: list.splits)

lemma fold_one: "length ls = 1 \<Longrightarrow> fold (\<lambda>l. f) ls st = f st"
  by (cases ls) simp_all

lemma ledger_emit:
  assumes "stateless (urlPattern st)" "oneResponseListener st" "settlesFirst e"
  shows "ledger js (emit js e st) = ledger js st @ map (capturedPair js) (matchingResponses (urlPattern st) [e])"
proof (cases e)
  case (RequestEvent rq)
  have "ledger js (fold (\<lambda>l. runRequestHandler rq) ls st) = ledger js st" for ls
    by (rule fold_same_keeps [where P = "\<lambda>s. ledger js s = ledger js st"])
       (simp_all add: ledger_def)
  then show ?thesis unfolding RequestEvent by simp
next
  case (ResponseEvent rs)
  from assms(2) have "emit js e st = runResponseHandler rs st"
    unfolding ResponseEvent oneResponseListener_def by (simp add: fold_one)
  then show ?thesis unfolding ResponseEvent
    by (simp add: runResponseHandler_def matchesPattern_stateless [OF assms(1)] ledger_def)
next
  case (BodySettled i)
  with assms(3) have "i = 0" by simp
  then show ?thesis unfolding BodySettled
    by (simp add: resume_first ledger_def split: list.splits)
qed

lemma oneResponseListener_emit [simp]: "oneResponseListener (emit js e st) = oneResponseListener st"
  using control_emit [of js e st] by (simp add: control_def oneResponseListener_def)

lemma matchingResponses_append:
  "matchingResponses p (es @ es') = matchingResponses p es @ matchingResponses p es'"
  by (induction p es rule: matchingResponses.induct) simp_all

lemma ledger_emits:
  assumes "stateless (urlPattern st)" "oneResponseListener st" "\<forall>e\<in>set es. settlesFirst e"
  shows "ledger js (fold (emit js) es st)
           = ledger js st @ map (capturedPair js) (matchingResponses (urlPattern st) es)"
  using assms
proof (induction es arbitrary: st)
  case Nil
  then show ?case by simp
next
  case (Cons e es)
  have "matchingResponses (urlPattern st) (e # es)
          = matchingResponses (urlPattern st) [e] @ matchingResponses (urlPattern st) es"
    using matchingResponses_append [of "urlPattern st" "[e]" es] by simp
  moreover from Cons.prems have "ledger js (emit js e st)
      = ledger js st @ map (capturedPair js) (matchingResponses (urlPattern st) [e])"
    by (intro ledger_emit) simp_all
  moreover from Cons.prems have "ledger js (fold (emit js) es (emit js e st))
      = ledger js (emit js e st) @ map (capturedPair js) (matchingResponses (urlPattern (emit js e st)) es)"
    by (intro Cons.IH) simp_all
  ultimately show ?case by simp
qed

text \<open>
  C6. The claim is that the snapshot holds the pairs of exactly the matching responses
  observed since the last \<open>startCapture\<close> or \<open>clear\<close>, in arrival order. Three
  histories show otherwise. The response handler pushes its pair only when the body read
  it awaits has settled, so the buffer is in the order the reads settle: when the response
  of ``/api/a'' arrives before that of ``/api/b'' and the read of the second settles
  first, the snapshot is the pair of ``/api/b'' followed by the pair of ``/api/a''. A
  \<open>startCapture\<close> on an object that is already capturing returns at once without
  resetting the buffer: with one matching response before such a call and one after it,
  the snapshot holds two pairs. And a body read that is outstanding when the buffer is
  reset pushes its pair into the new buffer when it settles: after a response, a
  \<open>stopCapture\<close>, a \<open>startCapture\<close> and then the end of the read, no matching response
  has arrived since the last \<open>startCapture\<close> and the snapshot holds one pair.
\<close>

theorem getAllCapturedData_arrival_order_counterexample:
  "fst (getAllCapturedData (run exampleRuntime overtakingHistory (newHttpCapture (Substring ''/api'') 0 0)))
     = [examplePair ''https://app.test/api/b'' 201, examplePair ''https://app.test/api/a'' 200] \<and>
   map (capturedPair exampleRuntime)
       (matchingResponses (Substring ''/api'') (sinceReset overtakingHistory []))
     = [examplePair ''https://app.test/api/a'' 200, examplePair ''https://app.test/api/b'' 201] \<and>
   fst (getAllCapturedData (run exampleRuntime overtakingHistory (newHttpCapture (Substring ''/api'') 0 0)))
     \<noteq> map (capturedPair exampleRuntime)
           (matchingResponses (Substring ''/api'') (sinceReset overtakingHistory [])) \<and>
   fst (getAllCapturedData (run exampleRuntime restartedHistory (newHttpCapture (Substring ''/api'') 0 0)))
     = [examplePair ''https://app.test/api/a'' 200, examplePair ''https://app.test/api/b'' 201] \<and>
   map (capturedPair exampleRuntime)
       (matchingResponses (Substring ''/api'') (sinceReset restartedHistory []))
     = [examplePair ''https://app.test/api/b'' 201] \<and>
   fst (getAllCapturedData (run exampleRuntime restartedHistory (newHttpCapture (Substring ''/api'') 0 0)))
     \<noteq> map (capturedPair exampleRuntime)
           (matchingResponses (Substring ''/api'') (sinceReset restartedHistory [])) \<and>
   fst (getAllCapturedData (run exampleRuntime staleHistory (newHttpCapture (Substring ''/api'') 0 0)))
     = [examplePair ''https://app.test/api/a'' 200] \<and>
   matchingResponses (Substring ''/api'') (sinceReset staleHistory []) = []"
  by (simp add: overtakingHistory_def restartedHistory_def staleHistory_def getAllCapturedData_def
      example_defs capturedPair_def captureResponse_def)

lemma armed_startCapture:
  "consistent st \<Longrightarrow> \<not> isCapturing st \<Longrightarrow> pending st = [] \<Longrightarrow> armed (startCapture st)"
  by (erule consistent_cases)
     (simp_all add: armed_def oneResponseListener_def startCapture_def addListener_def Let_def)

lemma armed_clear:
  "consistent st \<Longrightarrow> isCapturing st \<Longrightarrow> pending st = [] \<Longrightarrow> armed (clear st)"
  by (erule consistent_cases) (simp_all add: armed_def oneResponseListener_def clear_def)

lemma mset_without_nth:
  "i < length p \<Longrightarrow> mset (take i p @ drop (Suc i) p) + {#p ! i#} = mset p"
proof -
  assume "i < length p"
  then have "p = take i p @ p ! i # drop (Suc i) p" by (rule id_take_nth_drop)
  then have "mset p = mset (take i p @ p ! i # drop (Suc i) p)" by simp
  then show ?thesis by simp
qed

lemma mset_ledger_emit:
  assumes "stateless (urlPattern st)" "oneResponseListener st"
  shows "mset (ledger js (emit js e st))
           = mset (ledger js st) + mset (map (capturedPair js) (matchingResponses (urlPattern st) [e]))"
proof (cases e)
  case (RequestEvent rq)
  have same: "ledger js (fold (\<lambda>l. runRequestHandler rq) ls st) = ledger js st" for ls
    by (rule fold_same_keeps [where P = "\<lambda>s. ledger js s = ledger js st"])
       (simp_all add: ledger_def)
  show ?thesis unfolding RequestEvent by (simp add: same)
next
  case (ResponseEvent rs)
  from assms(2) have "emit js e st = runResponseHandler rs st"
    unfolding ResponseEvent oneResponseListener_def by (simp add: fold_one)
  then show ?thesis unfolding ResponseEvent
    by (simp add: runResponseHandler_def matchesPattern_stateless [OF assms(1)] ledger_def)
next
  case (BodySettled i)
  show ?thesis
  proof (cases "i < length (pending st)")
    case False
    then show ?thesis unfolding BodySettled by (simp add: resumeResponseHandler_def)
  next
    case True
    from mset_without_nth [OF True]
    have "mset (map (capturedPair js) (take i (pending st) @ drop (Suc i) (pending st)))
            + {#capturedPair js (pending st ! i)#} = mset (map (capturedPair js) (pending st))"
      by (metis image_mset_add_mset image_mset_single image_mset_union mset_map union_mset_add_mset_right add.right_neutral)
    with True show ?thesis unfolding BodySettled
      by (simp add: resumeResponseHandler_def ledger_def)
  qed
qed

lemma mset_ledger_emits:
  assumes "stateless (urlPattern st)" "oneResponseListener st"
  shows "mset (ledger js (fold (emit js) es st))
           = mset (ledger js st) + mset (map (capturedPair js) (matchingResponses (urlPattern st) es))"
  using assms
proof (induction es arbitrary: st)
  case Nil
  then show ?case by simp
next
  case (Cons e es)
  have "matchingResponses (urlPattern st) (e # es)
          = matchingResponses (urlPattern st) [e] @ matchingResponses (urlPattern st) es"
    using matchingResponses_append [of "urlPattern st" "[e]" es] by simp
  moreover from Cons.prems have "mset (ledger js (emit js e st))
      = mset (ledger js st) + mset (map (capturedPair js) (matchingResponses (urlPattern st) [e]))"
    by (intro mset_ledger_emit) simp_all
  moreover from Cons.prems have "mset (ledger js (fold (emit js) es (emit js e st)))
      = mset (ledger js (emit js e st))
          + mset (map (capturedPair js) (matchingResponses (urlPattern (emit js e st)) es))"
    by (intro Cons.IH) simp_all
  ultimately show ?case by simp
qed

lemma snapshot_of_armed:
  assumes "stateless (urlPattern st0)" and "armed st0"
  shows "mset (fst (getAllCapturedData (fold (emit js) es st0)))
             + mset (map (capturedPair js) (pending (fold (emit js) es st0)))
           = mset (map (capturedPair js) (matchingResponses (urlPattern st0) es))"
    and "(\<forall>e\<in>set es. settlesFirst e) \<Longrightarrow>
            fst (getAllCapturedData (fold (emit js) es st0))
                @ map (capturedPair js) (pending (fold (emit js) es st0))
              = map (capturedPair js) (matchingResponses (urlPattern st0) es)"
proof -
  from assms(2) have one: "oneResponseListener st0" and empty: "ledger js st0 = []"
    by (simp_all add: armed_def ledger_def)
  from mset_ledger_emits [OF assms(1) one, of js es] empty
  show "mset (fst (getAllCapturedData (fold (emit js) es st0)))
             + mset (map (capturedPair js) (pending (fold (emit js) es st0)))
           = mset (map (capturedPair js) (matchingResponses (urlPattern st0) es))"
    by (simp add: getAllCapturedData_def ledger_def)
  show "fst (getAllCapturedData (fold (emit js) es st0))
                @ map (capturedPair js) (pending (fold (emit js) es st0))
              = map (capturedPair js) (matchingResponses (urlPattern st0) es)"
    if "\<forall>e\<in>set es. settlesFirst e"
    using ledger_emits [OF assms(1) one that, of js] empty
    by (simp add: getAllCapturedData_def ledger_def)
qed

lemma urlPattern_run: "urlPattern (run js acts st) = urlPattern st"
  unfolding run_def by (induction acts arbitrary: st) simp_all

lemma armed_after_reset:
  assumes "s = run js acts (newHttpCapture p li t)" and "pending s = []"
    and "(\<not> isCapturing s \<and> st0 = startCapture s) \<or> (isCapturing s \<and> st0 = clear s)"
  shows "armed st0 \<and> urlPattern st0 = p"
proof -
  from assms(1) have c: "consistent s" by (simp add: consistent_run consistent_new)
  from assms(1) have u: "urlPattern s = p" by (simp add: urlPattern_run newHttpCapture_def)
  from assms(3) show ?thesis
  proof
    assume "\<not> isCapturing s \<and> st0 = startCapture s"
    with c assms(2) u show ?thesis by (simp add: armed_startCapture)
  next
    assume "isCapturing s \<and> st0 = clear s"
    with c assms(2) u show ?thesis by (simp add: armed_clear)
  qed
qed

text \<open>
  C6, as amended. Take an object whose pattern is a substring or a regular expression
  without the global and the sticky flag, at any point of its life at which no body read
  is outstanding, and reset its buffer there so that it listens: by a \<open>startCapture\<close>
  if it is not capturing, by a \<open>clear\<close> if it is. After any events from then on, the
  pairs in the snapshot together with the pairs of the responses whose body read is still
  outstanding are the pairs of the matching responses that arrived, each once: the snapshot
  holds one pair for each matching response whose read has settled, \<open>N\<close> pairs once the
  reads of all \<open>N\<close> have. If the reads settle in arrival order, the snapshot followed by
  the outstanding pairs is the list of the pairs of the matching responses in arrival
  order. \<open>getAllCapturedData\<close> changes nothing. A call of \<open>waitForNextCapture\<close>, in any
  state, does to the object what the events of the sleeps it went through do, and moves the
  clock: it takes nothing out of the buffer.
\<close>

theorem getAllCapturedData_settled_in_order:
  assumes "stateless p"
    and "s = run js acts (newHttpCapture p li t)"
    and "pending s = []"
    and "(\<not> isCapturing s \<and> new = startCapture s) \<or> (isCapturing s \<and> new = clear s)"
  shows "mset (fst (getAllCapturedData (fold (emit js) es new)))
             + mset (map (capturedPair js) (pending (fold (emit js) es new)))
           = mset (map (capturedPair js) (matchingResponses p es)) \<and>
         ((\<forall>e\<in>set es. settlesFirst e) \<longrightarrow>
            fst (getAllCapturedData (fold (emit js) es new))
                @ map (capturedPair js) (pending (fold (emit js) es new))
              = map (capturedPair js) (matchingResponses p es)) \<and>
         snd (getAllCapturedData (fold (emit js) es new)) = fold (emit js) es new \<and>
         (\<exists>k t'. snd (waitForNextCapture js timeout ticks st)
                   = (fold (emit js) (sleptEvents ticks 0 k) st)\<lparr>now := t'\<rparr>)"
proof -
  from armed_after_reset [OF assms(2,3,4)] have a: "armed new" and u: "urlPattern new = p"
    by simp_all
  from assms(1) u have s: "stateless (urlPattern new)" by simp
  from snapshot_of_armed [OF s a, where js = js and es = es] u show ?thesis
    using waitForNextCapture_events [of js timeout ticks st]
    by (simp add: getAllCapturedData_def)
qed

theorem getAllCapturedData_settled_in_order_witness:
  "stateless (Substring ''/api'') \<and>
   pending (run exampleRuntime [] (newHttpCapture (Substring ''/api'') 0 0)) = [] \<and>
   \<not> isCapturing (run exampleRuntime [] (newHttpCapture (Substring ''/api'') 0 0)) \<and>
   startedApi = startCapture (run exampleRuntime [] (newHttpCapture (Substring ''/api'') 0 0)) \<and>
   fst (getAllCapturedData (fold (emit exampleRuntime) threeResponses startedApi))
     = [examplePair ''https://app.test/api/a'' 200] \<and>
   pending (fold (emit exampleRuntime) threeResponses startedApi) = [exampleResponse ''https://app.test/api/b'' 201] \<and>
   matchingResponses (Substring ''/api'') threeResponses
     = [exampleResponse ''https://app.test/api/a'' 200, exampleResponse ''https://app.test/api/b'' 201] \<and>
   snd (getAllCapturedData (fold (emit exampleRuntime) threeResponses startedApi))
     = fold (emit exampleRuntime) threeResponses startedApi"
proof -
  have s: "stateless (Substring ''/api'')" by simp
  have n: "pending (run exampleRuntime [] (newHttpCapture (Substring ''/api'') 0 0)) = []"
    "\<not> isCapturing (run exampleRuntime [] (newHttpCapture (Substring ''/api'') 0 0))"
    "startedApi = startCapture (run exampleRuntime [] (newHttpCapture (Substring ''/api'') 0 0))"
    by (simp_all add: run_def newHttpCapture_def startedApi_def)
  have o: "\<forall>e\<in>set threeResponses. settlesFirst e" by (simp add: threeResponses_def)
  have p: "pending (fold (emit exampleRuntime) threeResponses startedApi) = [exampleResponse ''https://app.test/api/b'' 201]"
    by (simp add: threeResponses_def example_defs)
  have m: "matchingResponses (Substring ''/api'') threeResponses
     = [exampleResponse ''https://app.test/api/a'' 200, exampleResponse ''https://app.test/api/b'' 201]"
    by (simp add: threeResponses_def example_defs)
  from getAllCapturedData_settled_in_order
    [where p = "Substring ''/api''" and js = exampleRuntime and acts = "[]" and li = 0 and t = 0
       and s = "run exampleRuntime [] (newHttpCapture (Substring ''/api'') 0 0)"
       and new = startedApi and es = threeResponses]
  show ?thesis using s n o by (simp add: p m examplePair_def)
qed

section \<open>Properties of the retry-verify engine\<close>

lemmas fill_defs =
  fillWithRetry_def mergeDefaults_def orDefault_def orNull_def noOptions_def retryLoop.simps
  attemptOnce_def catchBlock_def registerTrackers_def unregisterTrackers_def addListener_def
  removeListener_def tryBlock_def beforeVerify_def clearStep_def fillStep_def
  waitForQuiescence_def verifyFill_def succeed_def mismatch_def retryPause_def exhausted_def
  andThen_def rejecting_def await_def sleep_def dispatch_def emitTo_def settledWith_def
  loggingLocator_def blankPage_def Let_def

subsection \<open>No step of an attempt touches the listeners\<close>

lemma frame_await [simp]: "frame (snd (await k call st)) = frame st"
  by (cases st) (simp add: await_def frame_def Let_def)

lemma frame_sleep [simp]: "frame (sleep k loc ms st) = frame st"
  by (cases st) (simp add: sleep_def frame_def Let_def)

lemma frame_rejecting [simp]: "frame (snd (rejecting m)) = frame (snd m)"
  by (cases m) (simp add: rejecting_def split: sum.splits)

lemma frame_andThen:
  assumes "\<And>x s. frame (snd (f x s)) = frame s"
  shows "frame (snd (andThen m f)) = frame (snd m)"
  using assms by (cases m) (simp add: andThen_def split: sum.splits)

lemma frame_quiescenceLoop [simp]: "frame (quiescenceLoop k loc timeout startTime st) = frame st"
proof (induction k loc timeout startTime st rule: quiescenceLoop.induct)
  case (1 k loc timeout startTime st)
  then show ?case
    by (simp add: quiescenceLoop.simps [of k loc timeout startTime st])
qed

lemma frame_waitForQuiescence [simp]: "frame (waitForQuiescence cfg k loc st) = frame st"
  by (simp add: waitForQuiescence_def)

lemma frame_verifyFill [simp]: "frame (snd (verifyFill k loc v va st)) = frame st"
proof (cases va)
  case (Some f)
  then show ?thesis by (simp add: verifyFill_def)
next
  case None
  show ?thesis
  proof (cases v)
    case (Other x)
    with None show ?thesis by (simp add: verifyFill_def)
  next
    case (Unprintable x)
    with None show ?thesis by (simp add: verifyFill_def)
  next
    case (Str expected)
    have "frame (snd (andThen (rejecting (await k (inputValue loc) st))
                 (\<lambda>actualValue st1.
                    if actualValue \<noteq> expected then (Inr False, st1)
                    else (case await k (isDisabled loc) st1 of
                            (Inl t, st2) \<Rightarrow> (Inr True, st2)
                          | (Inr disabled, st2) \<Rightarrow> (Inr (\<not> disabled), st2))))) = frame st"
    proof -
      have inner: "frame (snd (case await k (isDisabled loc) s of
                            (Inl t, st2) \<Rightarrow> (Inr True, st2)
                          | (Inr disabled, st2) \<Rightarrow> (Inr (\<not> disabled), st2))) = frame s" for s
        using frame_await [of k "isDisabled loc" s]
        by (cases "await k (isDisabled loc) s") (auto split: sum.splits)
      show ?thesis
        by (subst frame_andThen) (simp_all add: inner)
    qed
    with None Str show ?thesis by (simp add: verifyFill_def)
  qed
qed

lemma frame_clearStep [simp]: "frame (snd (clearStep cfg k loc v attempt st)) = frame st"
  by (simp add: clearStep_def frame_andThen)

lemma frame_fillStep [simp]: "frame (snd (fillStep cfg k v st)) = frame st"
  by (simp add: fillStep_def split: option.splits)

lemma frame_succeed [simp]: "frame (snd (succeed cfg k loc v attempt st)) = frame st"
  using frame_await [of k "inputValue loc" st]
  by (cases "await k (inputValue loc) st") (auto simp: succeed_def split: option.splits sum.splits)

lemma frame_mismatch [simp]: "frame (snd (mismatch k loc v st)) = frame st"
  using frame_await [of k "inputValue loc" st]
  by (cases "await k (inputValue loc) st") (auto simp: mismatch_def split: sum.splits)

lemma frame_beforeVerify [simp]: "frame (snd (beforeVerify cfg k loc v attempt st)) = frame st"
  unfolding beforeVerify_def
  by (subst frame_andThen | simp add: Let_def)+

lemma frame_tryBlock [simp]: "frame (snd (tryBlock cfg k loc v attempt st)) = frame st"
  unfolding tryBlock_def
  by (subst frame_andThen | simp add: Let_def)+

lemma registry_tryBlock:
  "registry (fst (snd (tryBlock cfg k loc v attempt (pg, c)))) = registry pg"
  using frame_tryBlock [of cfg k loc v attempt "(pg, c)"] by (simp add: frame_def)

subsection \<open>Registration and release\<close>

lemma removeListener_three:
  "a \<noteq> b \<Longrightarrow> a \<noteq> c \<Longrightarrow> b \<noteq> c \<Longrightarrow>
     removeListener c (removeListener b (removeListener a (ls @ [a, b, c]))) = ls"
  by (simp add: removeListener_def)

lemma unregister_register:
  "registry pg2 = registry (registerTrackers cfg k pg) \<Longrightarrow>
     registry (unregisterTrackers cfg k pg2) = registry pg"
  by (simp add: registerTrackers_def unregisterTrackers_def addListener_def removeListener_three)

lemma registry_retryPause [simp]: "registry (retryPause cfg k loc attempt pg) = registry pg"
  using frame_sleep [of k loc "retryDelay cfg" "(pg, 0)"]
  by (simp add: retryPause_def frame_def)

lemma registry_catchBlock [simp]:
  "registry (snd (catchBlock cfg k loc attempt e pg)) = registry pg"
  by (simp add: catchBlock_def)

lemma registry_attemptOnce: "registry (snd (attemptOnce cfg loc v attempt pg)) = registry pg"
proof (cases "printable v")
  case False
  then show ?thesis by (simp add: attemptOnce_def)
next
  case True
  define k where "k = closures pg"
  define pg1 where "pg1 = registerTrackers cfg k (pg\<lparr> closures := Suc k \<rparr>)"
  obtain res pg2 c where t: "tryBlock cfg k loc v attempt (pg1, 0) = (res, (pg2, c))"
    by (metis prod.exhaust)
  from registry_tryBlock [of cfg k loc v attempt pg1 0] t
  have "registry pg2 = registry (registerTrackers cfg k (pg\<lparr> closures := Suc k \<rparr>))"
    by (simp add: pg1_def)
  then have u: "registry (unregisterTrackers cfg k pg2) = registry pg"
    using unregister_register [of pg2 cfg k "pg\<lparr> closures := Suc k \<rparr>"] by simp
  from True show ?thesis
    unfolding attemptOnce_def Let_def k_def [symmetric] pg1_def [symmetric] t
    by (simp add: u split: sum.splits attempt_end.splits)
qed

lemma registry_exhausted: "registry (snd (exhausted cfg loc lastError pg)) = registry pg"
  using frame_await [of "closures pg" "inputValue loc" "(pg, 0)"]
  by (cases "await (closures pg) (inputValue loc) (pg, 0)") (auto simp: exhausted_def frame_def)

lemma registry_retryLoop: "registry (snd (retryLoop cfg loc v attempt lastError pg)) = registry pg"
proof (induction cfg loc v attempt lastError pg rule: retryLoop.induct)
  case (1 cfg loc v attempt lastError pg)
  show ?case
  proof (cases "attempt \<le> maxRetries cfg + 1")
    case False
    then show ?thesis
      using registry_exhausted [of cfg loc lastError pg]
      by (cases "exhausted cfg loc lastError pg")
         (simp add: retryLoop.simps [of cfg loc v attempt lastError pg])
  next
    case True
    obtain e pg1 where a: "attemptOnce cfg loc v attempt pg = (e, pg1)" by (metis prod.exhaust)
    with registry_attemptOnce [of cfg loc v attempt pg] have r: "registry pg1 = registry pg" by simp
    show ?thesis
    proof (cases e)
      case (Return x)
      with True a r show ?thesis
        by (simp add: retryLoop.simps [of cfg loc v attempt lastError pg])
    next
      case (Continue m)
      from "1.IH" [OF True a [symmetric] Continue] r
      have "registry (snd (retryLoop cfg loc v (attempt + 1) m pg1)) = registry pg" by simp
      with True a Continue show ?thesis
        by (simp add: retryLoop.simps [of cfg loc v attempt lastError pg])
    next
      case (Raise x)
      with True a r show ?thesis
        by (simp add: retryLoop.simps [of cfg loc v attempt lastError pg])
    qed
  qed
qed

lemma registry_attemptStarts:
  "p \<in> set (attemptStarts cfg loc v attempt pg) \<Longrightarrow> registry p = registry pg"
proof (induction cfg loc v attempt pg rule: attemptStarts.induct)
  case (1 cfg loc v attempt pg)
  show ?case
  proof (cases "attempt \<le> maxRetries cfg + 1")
    case False
    with "1.prems" show ?thesis
      by (simp add: attemptStarts.simps [of cfg loc v attempt pg])
  next
    case True
    obtain e pg1 where a: "attemptOnce cfg loc v attempt pg = (e, pg1)" by (metis prod.exhaust)
    with registry_attemptOnce [of cfg loc v attempt pg] have r: "registry pg1 = registry pg" by simp
    show ?thesis
    proof (cases e)
      case (Return x)
      with True a "1.prems" show ?thesis
        by (simp add: attemptStarts.simps [of cfg loc v attempt pg])
    next
      case (Continue m)
      with True a "1.prems" have "p = pg \<or> p \<in> set (attemptStarts cfg loc v (attempt + 1) pg1)"
        by (simp add: attemptStarts.simps [of cfg loc v attempt pg])
      then show ?thesis
      proof
        assume "p = pg" then show ?thesis by simp
      next
        assume "p \<in> set (attemptStarts cfg loc v (attempt + 1) pg1)"
        with "1.IH" [OF True a [symmetric] Continue] r show ?thesis by simp
      qed
    next
      case (Raise x)
      with True a "1.prems" show ?thesis
        by (simp add: attemptStarts.simps [of cfg loc v attempt pg])
    qed
  qed
qed

lemma closures_retryPause [simp]: "closures (retryPause cfg k loc attempt pg) = closures pg"
  using frame_sleep [of k loc "retryDelay cfg" "(pg, 0)"]
  by (simp add: retryPause_def frame_def)

lemma closures_attemptOnce:
  "closures (snd (attemptOnce cfg loc v attempt pg))
     = (if printable v then Suc (closures pg) else closures pg)"
proof (cases "printable v")
  case False
  then show ?thesis by (simp add: attemptOnce_def catchBlock_def)
next
  case True
  define k where "k = closures pg"
  define pg1 where "pg1 = registerTrackers cfg k (pg\<lparr> closures := Suc k \<rparr>)"
  obtain res pg2 c where t: "tryBlock cfg k loc v attempt (pg1, 0) = (res, (pg2, c))"
    by (metis prod.exhaust)
  from frame_tryBlock [of cfg k loc v attempt "(pg1, 0)"] t
  have "closures pg2 = Suc k"
    by (simp add: frame_def pg1_def registerTrackers_def)
  then have u: "closures (unregisterTrackers cfg k pg2) = Suc k"
    by (simp add: unregisterTrackers_def)
  from True show ?thesis
    unfolding attemptOnce_def Let_def k_def [symmetric] pg1_def [symmetric] t
    by (simp add: u catchBlock_def split: sum.splits attempt_end.splits)
qed

lemma wellNumbered_attemptOnce:
  "wellNumbered pg \<Longrightarrow> wellNumbered (snd (attemptOnce cfg loc v attempt pg))"
  by (auto simp: wellNumbered_def registry_attemptOnce closures_attemptOnce)

text \<open>
  C9. Whatever the configuration, the locator, the callbacks and the browser do: the
  \<^verbatim>\<open>try\<close> block of an attempt leaves the listeners as the registration before it made
  them; after the pass, whether it returned a success, fell through on a mismatch or caught
  a thrown error of the action or of the verification, the listeners of the page are those
  from before the pass, and on a page whose listeners belong to earlier attempts none of
  them is a listener of this attempt; so every pass of the loop begins with the listeners
  the call began with, and the call ends with them.
\<close>

theorem trackers_released:
  "registry (fst (snd (tryBlock cfg (closures pg) loc v attempt
                         (registerTrackers cfg (closures pg) (pg\<lparr> closures := Suc (closures pg) \<rparr>), 0))))
     = registry (registerTrackers cfg (closures pg) (pg\<lparr> closures := Suc (closures pg) \<rparr>)) \<and>
   registry (snd (attemptOnce cfg loc v attempt pg)) = registry pg \<and>
   (wellNumbered pg \<longrightarrow>
      (\<forall>l \<in> set (registry (snd (attemptOnce cfg loc v attempt pg))).
          trackerOwner (snd l) \<noteq> closures pg)) \<and>
   (\<forall>p \<in> set (attemptStarts cfg loc v attempt pg). registry p = registry pg) \<and>
   registry (snd (fillWithRetry loc v options pg)) = registry pg"
proof -
  have "registry (snd (fillWithRetry loc v options pg)) = registry pg"
    by (simp add: fillWithRetry_def registry_retryLoop)
  moreover have "wellNumbered pg \<longrightarrow>
      (\<forall>l \<in> set (registry (snd (attemptOnce cfg loc v attempt pg))).
          trackerOwner (snd l) \<noteq> closures pg)"
    by (auto simp: wellNumbered_def registry_attemptOnce)
  ultimately show ?thesis
    by (simp add: registry_tryBlock registry_attemptOnce registry_attemptStarts)
qed

theorem trackers_released_witness:
  "waitForRequests (mergeDefaults twoRetries) \<and> wellNumbered busyPage \<and>
   registry (registerTrackers (mergeDefaults twoRetries) 5 (busyPage\<lparr> closures := 6 \<rparr>))
     = [(EvRequest, TrackRequest 3), (EvRequest, TrackRequest 5),
        (EvRequestFinished, TrackFinish 5), (EvRequestFailed, TrackFinish 5)] \<and>
   registry (snd (attemptOnce (mergeDefaults twoRetries) (loggingLocator ''abc'') (Other True) 1 busyPage))
     = [(EvRequest, TrackRequest 3)] \<and>
   map registry (attemptStarts (mergeDefaults twoRetries) (loggingLocator ''abc'') (Other True) 1 busyPage)
     = [[(EvRequest, TrackRequest 3)], [(EvRequest, TrackRequest 3)], [(EvRequest, TrackRequest 3)]] \<and>
   registry (snd (fillWithRetry (loggingLocator ''abc'') (Other True) twoRetries busyPage))
     = [(EvRequest, TrackRequest 3)]"
  using trackers_released [of "mergeDefaults twoRetries" busyPage "loggingLocator ''abc''"
      "Other True" 1 twoRetries]
  by (simp add: fill_defs twoRetries_def requestingFill_def neverVerified_def quiescenceLoop.simps
      attemptStarts.simps busyPage_def wellNumbered_def)


subsection \<open>How a pass and the loop end\<close>

text \<open>What leaves the loop is the error of the \<^verbatim>\<open>catch\<close> block, nothing else.\<close>

lemma attemptOnce_Raise:
  assumes "fst (attemptOnce cfg loc v attempt pg) = Raise x"
  shows "x = TextUnreadable"
proof (cases "printable v")
  case False
  with assms show ?thesis by (simp add: attemptOnce_def catchBlock_def)
next
  case True
  obtain res pg2 c where t: "tryBlock cfg (closures pg) loc v attempt
      (registerTrackers cfg (closures pg) (pg\<lparr> closures := Suc (closures pg) \<rparr>), 0) = (res, (pg2, c))"
    by (metis prod.exhaust)
  from assms True show ?thesis
    unfolding attemptOnce_def Let_def t
    by (auto simp: catchBlock_def split: sum.splits attempt_end.splits if_splits)
qed

lemma retryLoop_Inl:
  "fst (retryLoop cfg loc v attempt lastError pg) = Inl x \<Longrightarrow> x = TextUnreadable"
proof (induction cfg loc v attempt lastError pg rule: retryLoop.induct)
  case (1 cfg loc v attempt lastError pg)
  show ?case
  proof (cases "attempt \<le> maxRetries cfg + 1")
    case False
    with "1.prems" show ?thesis
      by (cases "exhausted cfg loc lastError pg")
         (simp add: retryLoop.simps [of cfg loc v attempt lastError pg])
  next
    case True
    obtain e pg1 where a: "attemptOnce cfg loc v attempt pg = (e, pg1)" by (metis prod.exhaust)
    show ?thesis
    proof (cases e)
      case (Return r)
      with True a "1.prems" show ?thesis
        by (simp add: retryLoop.simps [of cfg loc v attempt lastError pg])
    next
      case (Continue m)
      with True a "1.prems" have "fst (retryLoop cfg loc v (attempt + 1) m pg1) = Inl x"
        by (simp add: retryLoop.simps [of cfg loc v attempt lastError pg])
      with "1.IH" [OF True a [symmetric] Continue] show ?thesis by simp
    next
      case (Raise y)
      with True a "1.prems" have "y = x"
        by (simp add: retryLoop.simps [of cfg loc v attempt lastError pg])
      with attemptOnce_Raise [of cfg loc v attempt pg y] a Raise show ?thesis by simp
    qed
  qed
qed

text \<open>
  The paths into the \<^verbatim>\<open>catch\<close> block, on a field that shows ``abc''. A
  \<^verbatim>\<open>fillAction\<close> that rejects with \<^verbatim>\<open>undefined\<close>, and likewise a
  \<^verbatim>\<open>verifyAction\<close> that does: the call rejects with the \<^verbatim>\<open>TypeError\<close> of the
  \<^verbatim>\<open>catch\<close> block, in its first pass. A value that cannot be written into the log line:
  every pass ends in the \<^verbatim>\<open>catch\<close> block before anything is registered or slept, and
  the call resolves with the text of that \<^verbatim>\<open>TypeError\<close> as \<open>error\<close>, having slept
  the retry delay only.
\<close>

lemma fillWithRetry_catch_paths:
  "fst (fillWithRetry (loggingLocator ''abc'') (Other True)
          (noOptions\<lparr> fillAction_opt := Given rejectingFill \<rparr>) blankPage) = Inl TextUnreadable"
  "fst (fillWithRetry (loggingLocator ''abc'') (Other True)
          (noOptions\<lparr> verifyAction_opt := Given (\<lambda>v. settledWith (Inl WithoutText)) \<rparr>) blankPage)
     = Inl TextUnreadable"
  "fillWithRetry (loggingLocator ''abc'') (Unprintable True) (noOptions\<lparr> maxRetries_opt := Given 1 \<rparr>)
       blankPage
     = (Inr \<lparr> success = False, attempts = 2, finalValue = Str ''abc'',
              error = Some (ErrorText NotPrintable) \<rparr>,
        \<lparr> dom = [500], clock = 500, registry = [], closures = 0 \<rparr>)"
  by (simp_all add: fill_defs rejectingFill_def)

text \<open>
  A run of the loop in which the verification of every pass comes to something of a kind
  \<open>Q\<close> after which the pass goes on with a \<^verbatim>\<open>lastError\<close> of a kind \<open>M\<close>: the loop
  makes all its passes, and the call resolves with the result of an exhausted call.
\<close>

lemma retryLoop_exhausts:
  assumes step: "\<And>attempt pg. Q (verification cfg loc v attempt pg)
                   \<Longrightarrow> \<exists>m. fst (attemptOnce cfg loc v attempt pg) = Continue m \<and> M m"
    and every: "\<forall>x\<in>set (verifications cfg loc v attempt pg). Q x"
  shows "\<exists>r m. fst (retryLoop cfg loc v attempt lastError pg) = Inr r \<and> \<not> success r \<and>
           attempts r = maxRetries cfg + 1 \<and> error r = Some (orUnknown m) \<and>
           (if attempt \<le> maxRetries cfg + 1 then M m else m = lastError) \<and>
           length (verifications cfg loc v attempt pg) = nat (maxRetries cfg + 2 - attempt)"
  using step every
proof (induction cfg loc v attempt lastError pg rule: retryLoop.induct)
  case (1 cfg loc v attempt lastError pg)
  note step = "1.prems"(1) and every = "1.prems"(2)
  show ?case
  proof (cases "attempt \<le> maxRetries cfg + 1")
    case False
    then show ?thesis
      by (cases "await (closures pg) (inputValue loc) (pg, 0)")
         (auto simp: retryLoop.simps [of cfg loc v attempt lastError pg] exhausted_def
            verifications.simps [of cfg loc v attempt pg])
  next
    case True
    obtain e pg1 where a: "attemptOnce cfg loc v attempt pg = (e, pg1)" by (metis prod.exhaust)
    from True every have "Q (verification cfg loc v attempt pg)"
      by (simp add: verifications.simps [of cfg loc v attempt pg])
    from step [OF this] a obtain m1 where m1: "e = Continue m1" "M m1" by auto
    from True a m1 have v: "verifications cfg loc v attempt pg
        = verification cfg loc v attempt pg # verifications cfg loc v (attempt + 1) pg1"
      by (simp add: verifications.simps [of cfg loc v attempt pg])
    with every have rest: "\<forall>x\<in>set (verifications cfg loc v (attempt + 1) pg1). Q x" by simp
    from "1.IH" [OF True a [symmetric] m1(1) step rest]
    obtain r m where r: "fst (retryLoop cfg loc v (attempt + 1) m1 pg1) = Inr r" "\<not> success r"
        "attempts r = maxRetries cfg + 1" "error r = Some (orUnknown m)"
        "if attempt + 1 \<le> maxRetries cfg + 1 then M m else m = m1"
        "length (verifications cfg loc v (attempt + 1) pg1) = nat (maxRetries cfg + 2 - (attempt + 1))"
      by blast
    from r(5) m1(2) have "M m" by (simp split: if_splits)
    moreover from True a m1 r(1)
    have "fst (retryLoop cfg loc v attempt lastError pg) = Inr r"
      by (simp add: retryLoop.simps [of cfg loc v attempt lastError pg])
    moreover from True r(6) v
    have "length (verifications cfg loc v attempt pg) = nat (maxRetries cfg + 2 - attempt)"
      by (simp add: nat_diff_distrib')
    ultimately show ?thesis using True r(2,3,4) by auto
  qed
qed

text \<open>A pass that gets to the verification: the steps before it did not throw.\<close>

lemma verification_reached:
  assumes "verification cfg loc v attempt pg \<noteq> NotReached"
  obtains st5 where "printable v"
    and "beforeVerify cfg (closures pg) loc v attempt
           (registerTrackers cfg (closures pg) (pg\<lparr> closures := Suc (closures pg) \<rparr>), 0)
         = (Inr (), st5)"
    and "verification cfg loc v attempt pg
         = (case fst (verifyFill (closures pg) loc v (verifyAction cfg) st5) of
              Inl e \<Rightarrow> Threw e | Inr isValid \<Rightarrow> Answered isValid)"
proof -
  from assms have p: "printable v" by (simp add: verification_def split: if_splits)
  obtain res st5 where b: "beforeVerify cfg (closures pg) loc v attempt
           (registerTrackers cfg (closures pg) (pg\<lparr> closures := Suc (closures pg) \<rparr>), 0)
         = (res, st5)"
    by (metis prod.exhaust)
  from assms p b have "res = Inr ()"
    by (cases res) (simp_all add: verification_def Let_def)
  with p b that show ?thesis by (simp add: verification_def Let_def)
qed

lemma attemptOnce_mismatch:
  assumes "verification cfg loc v attempt pg = Answered False"
  shows "\<exists>m. fst (attemptOnce cfg loc v attempt pg) = Continue m \<and> (\<exists>actual. m = ValueMismatch v actual)"
proof -
  from assms have "verification cfg loc v attempt pg \<noteq> NotReached" by simp
  then obtain st5 where p: "printable v"
    and b: "beforeVerify cfg (closures pg) loc v attempt
           (registerTrackers cfg (closures pg) (pg\<lparr> closures := Suc (closures pg) \<rparr>), 0)
         = (Inr (), st5)"
    and w: "verification cfg loc v attempt pg
         = (case fst (verifyFill (closures pg) loc v (verifyAction cfg) st5) of
              Inl e \<Rightarrow> Threw e | Inr isValid \<Rightarrow> Answered isValid)"
    by (rule verification_reached)
  obtain res st6 where vf: "verifyFill (closures pg) loc v (verifyAction cfg) st5 = (res, st6)"
    by (metis prod.exhaust)
  from assms w vf have res: "res = Inr False" by (cases res) simp_all
  obtain out pg7 c7 where rd: "await (closures pg) (inputValue loc) st6 = (out, (pg7, c7))"
    by (metis prod.exhaust)
  have "\<exists>actual. tryBlock cfg (closures pg) loc v attempt
             (registerTrackers cfg (closures pg) (pg\<lparr> closures := Suc (closures pg) \<rparr>), 0)
           = (Inr (Mismatched (ValueMismatch v actual)), (pg7, c7))"
    unfolding tryBlock_def b
    by (cases out) (simp_all add: andThen_def vf res mismatch_def rd)
  then obtain actual where t: "tryBlock cfg (closures pg) loc v attempt
             (registerTrackers cfg (closures pg) (pg\<lparr> closures := Suc (closures pg) \<rparr>), 0)
           = (Inr (Mismatched (ValueMismatch v actual)), (pg7, c7))"
    by blast
  from p show ?thesis
    unfolding attemptOnce_def Let_def t by simp
qed

lemma attemptOnce_config_error:
  assumes "verification cfg loc v attempt pg \<noteq> NotReached"
    and "verifyAction cfg = None" and "\<not> isString v"
  shows "verification cfg loc v attempt pg = Threw VerifyActionRequired"
    and "fst (attemptOnce cfg loc v attempt pg) = Continue (ErrorText VerifyActionRequired)"
    and "snd (attemptOnce cfg loc v attempt pg)
           = retryPause cfg (closures pg) loc attempt
               (unregisterTrackers cfg (closures pg)
                  (fst (snd (tryBlock cfg (closures pg) loc v attempt
                     (registerTrackers cfg (closures pg) (pg\<lparr> closures := Suc (closures pg) \<rparr>),
                      0)))))"
proof -
  from assms(1) obtain st5 where p: "printable v"
    and b: "beforeVerify cfg (closures pg) loc v attempt
           (registerTrackers cfg (closures pg) (pg\<lparr> closures := Suc (closures pg) \<rparr>), 0)
         = (Inr (), st5)"
    and w: "verification cfg loc v attempt pg
         = (case fst (verifyFill (closures pg) loc v (verifyAction cfg) st5) of
              Inl e \<Rightarrow> Threw e | Inr isValid \<Rightarrow> Answered isValid)"
    by (rule verification_reached)
  from assms(2,3) have vf: "verifyFill (closures pg) loc v (verifyAction cfg) st5
      = (Inl VerifyActionRequired, st5)"
    by (cases v) (simp_all add: verifyFill_def)
  from w vf show "verification cfg loc v attempt pg = Threw VerifyActionRequired" by simp
  obtain pg5 c5 where st5: "st5 = (pg5, c5)" by (metis prod.exhaust)
  have t: "tryBlock cfg (closures pg) loc v attempt
             (registerTrackers cfg (closures pg) (pg\<lparr> closures := Suc (closures pg) \<rparr>), 0)
           = (Inl VerifyActionRequired, (pg5, c5))"
    unfolding tryBlock_def b by (simp add: andThen_def vf) (simp add: st5)
  from p show "fst (attemptOnce cfg loc v attempt pg) = Continue (ErrorText VerifyActionRequired)"
    unfolding attemptOnce_def Let_def t by (simp add: catchBlock_def)
  from p show "snd (attemptOnce cfg loc v attempt pg)
           = retryPause cfg (closures pg) loc attempt
               (unregisterTrackers cfg (closures pg)
                  (fst (snd (tryBlock cfg (closures pg) loc v attempt
                     (registerTrackers cfg (closures pg) (pg\<lparr> closures := Suc (closures pg) \<rparr>),
                      0)))))"
    unfolding attemptOnce_def Let_def t by (simp add: catchBlock_def)
qed

text \<open>
  C1. The claim is that for a value that is not a string, with no \<^verbatim>\<open>verifyAction\<close>, the
  configuration error reaches the caller at once, with no retry and no \<^verbatim>\<open>retryDelay\<close>
  sleep. The error is thrown by \<^verbatim>\<open>verifyFill\<close> inside the \<^verbatim>\<open>try\<close> block of the
  loop, whose \<^verbatim>\<open>catch\<close> takes it: for the value \<^verbatim>\<open>true\<close> with \<^verbatim>\<open>maxRetries = 1\<close>
  the call resolves with a failure result after two attempts, and the page has slept 300,
  200, then the retry delay 500, then 300 and 200 again.
\<close>

theorem fillWithRetry_config_error_counterexample:
  "fillWithRetry (loggingLocator ''abc'') (Other True) (noOptions\<lparr> maxRetries_opt := Given 1 \<rparr>) blankPage
     = (Inr \<lparr> success = False, attempts = 2, finalValue = Str ''abc'',
              error = Some (ErrorText VerifyActionRequired) \<rparr>,
        \<lparr> dom = [300, 200, 500, 300, 200], clock = 1500, registry = [], closures = 2 \<rparr>) \<and>
   fst (fillWithRetry (loggingLocator ''abc'') (Other True) (noOptions\<lparr> maxRetries_opt := Given 1 \<rparr>)
          blankPage) \<noteq> Inl VerifyActionRequired"
  by (simp add: fill_defs)

text \<open>
  C1, as amended. For a value that is not a string, with no \<^verbatim>\<open>verifyAction\<close>, the
  configuration error is never raised to the caller. A pass of the loop that gets to the
  verification ends with \<^verbatim>\<open>verifyFill\<close> throwing it inside the \<^verbatim>\<open>try\<close> block and
  the \<^verbatim>\<open>catch\<close> of the loop taking it: its text becomes \<^verbatim>\<open>lastError\<close>, and after
  the \<^verbatim>\<open>finally\<close> block the pause before a retry follows (the sleep of
  \<^verbatim>\<open>retryDelay\<close> while \<open>attempt \<le> maxRetries\<close>), after which the loop goes on. When every pass of the call gets to the verification, the
  call resolves with \<open>success = False\<close> and \<open>attempts = maxRetries + 1\<close>, and with the text of
  the configuration error as \<open>error\<close> if \<open>maxRetries \<ge> 0\<close>.
\<close>

theorem fillWithRetry_config_error_caught:
  assumes "verifyAction (mergeDefaults options) = None" and "\<not> isString v"
  shows "fst (fillWithRetry loc v options pg) \<noteq> Inl VerifyActionRequired \<and>
         (verification (mergeDefaults options) loc v attempt pg' \<noteq> NotReached \<longrightarrow>
            verification (mergeDefaults options) loc v attempt pg' = Threw VerifyActionRequired \<and>
            fst (attemptOnce (mergeDefaults options) loc v attempt pg')
              = Continue (ErrorText VerifyActionRequired) \<and>
            snd (attemptOnce (mergeDefaults options) loc v attempt pg')
              = retryPause (mergeDefaults options) (closures pg') loc attempt
                  (unregisterTrackers (mergeDefaults options) (closures pg')
                     (fst (snd (tryBlock (mergeDefaults options) (closures pg') loc v attempt
                        (registerTrackers (mergeDefaults options) (closures pg')
                           (pg'\<lparr> closures := Suc (closures pg') \<rparr>), 0)))))) \<and>
         ((\<forall>x\<in>set (verifications (mergeDefaults options) loc v 1 pg). x \<noteq> NotReached) \<longrightarrow>
            (\<exists>r. fst (fillWithRetry loc v options pg) = Inr r \<and> \<not> success r \<and>
                  attempts r = maxRetries (mergeDefaults options) + 1 \<and>
                  (0 \<le> maxRetries (mergeDefaults options) \<longrightarrow>
                     error r = Some (ErrorText VerifyActionRequired))))"
proof -
  let ?cfg = "mergeDefaults options"
  have never: "fst (fillWithRetry loc v options pg) \<noteq> Inl VerifyActionRequired"
    using retryLoop_Inl [of ?cfg loc v 1 NoMessage pg VerifyActionRequired]
    by (auto simp: fillWithRetry_def)
  have pass: "verification ?cfg loc v attempt pg' = Threw VerifyActionRequired \<and>
            fst (attemptOnce ?cfg loc v attempt pg') = Continue (ErrorText VerifyActionRequired) \<and>
            snd (attemptOnce ?cfg loc v attempt pg')
              = retryPause ?cfg (closures pg') loc attempt
                  (unregisterTrackers ?cfg (closures pg')
                     (fst (snd (tryBlock ?cfg (closures pg') loc v attempt
                        (registerTrackers ?cfg (closures pg')
                           (pg'\<lparr> closures := Suc (closures pg') \<rparr>), 0)))))"
    if "verification ?cfg loc v attempt pg' \<noteq> NotReached"
    using attemptOnce_config_error [OF that assms] by simp
  have run: "\<exists>r. fst (fillWithRetry loc v options pg) = Inr r \<and> \<not> success r \<and>
                  attempts r = maxRetries ?cfg + 1 \<and>
                  (0 \<le> maxRetries ?cfg \<longrightarrow> error r = Some (ErrorText VerifyActionRequired))"
    if every: "\<forall>x\<in>set (verifications ?cfg loc v 1 pg). x \<noteq> NotReached"
  proof -
    have step: "\<exists>m. fst (attemptOnce ?cfg loc v n p) = Continue m \<and> m = ErrorText VerifyActionRequired"
      if "verification ?cfg loc v n p \<noteq> NotReached" for n p
      using attemptOnce_config_error(2) [OF that assms] by simp
    from retryLoop_exhausts
      [where Q = "\<lambda>x. x \<noteq> NotReached" and M = "\<lambda>m. m = ErrorText VerifyActionRequired"
         and cfg = ?cfg and loc = loc and v = v and attempt = 1 and pg = pg
         and lastError = NoMessage, OF step every]
    show ?thesis by (auto simp: fillWithRetry_def)
  qed
  from never pass run show ?thesis by blast
qed

theorem fillWithRetry_config_error_caught_witness:
  "verifyAction (mergeDefaults (noOptions\<lparr> maxRetries_opt := Given 1 \<rparr>
                   :: (bool, int list) FillOptions)) = None \<and>
   \<not> isString (Other True) \<and>
   verifications (mergeDefaults (noOptions\<lparr> maxRetries_opt := Given 1 \<rparr>))
       (loggingLocator ''abc'') (Other True) 1 blankPage
     = [Threw VerifyActionRequired, Threw VerifyActionRequired] \<and>
   fst (attemptOnce (mergeDefaults (noOptions\<lparr> maxRetries_opt := Given 1 \<rparr>))
          (loggingLocator ''abc'') (Other True) 1 blankPage)
     = Continue (ErrorText VerifyActionRequired) \<and>
   dom (snd (attemptOnce (mergeDefaults (noOptions\<lparr> maxRetries_opt := Given 1 \<rparr>))
               (loggingLocator ''abc'') (Other True) 1 blankPage))
     = [300, 200, 500] \<and>
   fst (fillWithRetry (loggingLocator ''abc'') (Other True) (noOptions\<lparr> maxRetries_opt := Given 1 \<rparr>)
          blankPage)
     = Inr \<lparr> success = False, attempts = 2, finalValue = Str ''abc'',
             error = Some (ErrorText VerifyActionRequired) \<rparr>"
  using fillWithRetry_config_error_caught
    [where options = "noOptions\<lparr> maxRetries_opt := Given 1 \<rparr>" and loc = "loggingLocator ''abc''"
       and v = "Other True" and pg = blankPage and attempt = 1 and pg' = blankPage]
  by (simp add: fill_defs verifications.simps verification_def)

text \<open>
  C4. If in every pass of the call the verification, custom or default, is run and
  returns false, then with \<open>maxRetries = m\<close> the call makes \<open>m + 1\<close> passes and resolves, it
  does not reject, and its result has \<open>success = False\<close>, \<open>attempts = m + 1\<close> and, if a pass
  was made, the description of a mismatch as \<open>error\<close>. (With \<open>maxRetries = 2\<close> and a
  predicate that is always false the result has \<open>attempts = 3\<close>.)
\<close>

theorem fillWithRetry_exhausted:
  assumes "\<forall>x\<in>set (verifications (mergeDefaults options) loc v 1 pg). x = Answered False"
    and "maxRetries (mergeDefaults options) = m"
  shows "\<exists>r. fst (fillWithRetry loc v options pg) = Inr r \<and> \<not> success r \<and> attempts r = m + 1 \<and>
              (0 \<le> m \<longrightarrow> (\<exists>actual. error r = Some (ValueMismatch v actual))) \<and>
              length (verifications (mergeDefaults options) loc v 1 pg) = nat (m + 1)"
proof -
  let ?cfg = "mergeDefaults options"
  from retryLoop_exhausts
    [where Q = "\<lambda>x. x = Answered False" and M = "\<lambda>m. \<exists>actual. m = ValueMismatch v actual"
       and cfg = ?cfg and loc = loc and v = v and attempt = 1 and pg = pg
       and lastError = NoMessage, OF attemptOnce_mismatch assms(1)]
  show ?thesis using assms(2) by (auto simp: fillWithRetry_def add.commute)
qed

theorem fillWithRetry_exhausted_witness:
  "verifications (mergeDefaults twoRetries) (loggingLocator ''abc'') (Other True) 1 blankPage
     = [Answered False, Answered False, Answered False] \<and>
   maxRetries (mergeDefaults twoRetries) = 2 \<and>
   fst (fillWithRetry (loggingLocator ''abc'') (Other True) twoRetries blankPage)
     = Inr \<lparr> success = False, attempts = 3, finalValue = Str ''abc'',
             error = Some (ValueMismatch (Other True) (Some ''abc'')) \<rparr>"
proof -
  have w: "verifications (mergeDefaults twoRetries) (loggingLocator ''abc'') (Other True) 1 blankPage
     = [Answered False, Answered False, Answered False]"
    by (simp add: fill_defs verifications.simps verification_def twoRetries_def requestingFill_def
        neverVerified_def quiescenceLoop.simps)
  have m: "maxRetries (mergeDefaults twoRetries) = 2"
    by (simp add: mergeDefaults_def twoRetries_def orDefault_def)
  from fillWithRetry_exhausted
    [where options = twoRetries and loc = "loggingLocator ''abc''" and v = "Other True"
       and pg = blankPage and m = 2]
  show ?thesis using w m
    by (simp add: fill_defs twoRetries_def requestingFill_def neverVerified_def quiescenceLoop.simps)
qed

subsection \<open>The batch\<close>

text \<open>
  The options of a field: a key of the field's options that is present with the value
  \<^verbatim>\<open>undefined\<close> hides the global one, and the default applies.

  The loop of \<open>fillMultiple\<close> makes the calls of the engine one after the other in input
  order: when all of them resolve, it resolves with their results, one for each field in
  input order; when one of them rejects, it rejects with the error of that call.
\<close>

lemma spread_present_keys:
  "maxRetries (mergeDefaults (spread (Some (noOptions\<lparr> maxRetries_opt := Given 7 \<rparr>))
                 (Some (noOptions\<lparr> maxRetries_opt := Undefined \<rparr>)))) = 3"
  "maxRetries (mergeDefaults (spread (Some (noOptions\<lparr> maxRetries_opt := Given 7 \<rparr>))
                 (Some noOptions))) = 7"
  "maxRetries (mergeDefaults (spread (Some (noOptions\<lparr> maxRetries_opt := Given 7 \<rparr>)) None)) = 7"
  by (simp_all add: mergeDefaults_def spread_def spreadKey_def orEmpty_def orDefault_def noOptions_def)

lemma fillLoop_sequentially:
  "fillLoop flds g acc pg
     = (if list_all resolved (fst (sequentially flds g pg))
        then Inr (acc @ map projr (fst (sequentially flds g pg)))
        else Inl (projl (last (fst (sequentially flds g pg)))),
        snd (sequentially flds g pg))"
proof (induction flds arbitrary: acc pg)
  case Nil
  then show ?case by simp
next
  case (Cons fld flds)
  obtain out pg1 where r: "fillWithRetry (field_locator fld) (field_value fld)
             (spread g (field_options fld)) pg = (out, pg1)"
    by (metis prod.exhaust)
  show ?case
  proof (cases out)
    case (Inl e)
    with r show ?thesis by (simp add: andThen_def)
  next
    case (Inr x)
    obtain rs pg2 where rs: "sequentially flds g pg1 = (rs, pg2)" by (metis prod.exhaust)
    have "rs \<noteq> []" if "\<not> list_all resolved rs" using that by auto
    with r Inr rs show ?thesis by (simp add: andThen_def Cons.IH)
  qed
qed

lemma length_sequentially:
  "list_all resolved (fst (sequentially flds g pg))
     \<Longrightarrow> length (fst (sequentially flds g pg)) = length flds"
proof (induction flds arbitrary: pg)
  case Nil
  then show ?case by simp
next
  case (Cons fld flds)
  obtain out pg1 where r: "fillWithRetry (field_locator fld) (field_value fld)
             (spread g (field_options fld)) pg = (out, pg1)"
    by (metis prod.exhaust)
  show ?case
  proof (cases out)
    case (Inl e)
    with r Cons.prems show ?thesis by simp
  next
    case (Inr x)
    obtain rs pg2 where rs: "sequentially flds g pg1 = (rs, pg2)" by (metis prod.exhaust)
    with r Inr Cons.prems Cons.IH [of pg1] show ?thesis by simp
  qed
qed

lemma fillMultiple_resolved:
  assumes "list_all resolved (fst (sequentially flds g pg))"
  shows "fst (fillMultiple flds g pg) = Inr (map projr (fst (sequentially flds g pg)))"
    and "length (map projr (fst (sequentially flds g pg))) = length flds"
  using assms by (simp_all add: fillMultiple_def fillLoop_sequentially length_sequentially)

text \<open>
  C8. The claim is that \<open>fillMultiple\<close> returns one result for each field, without
  throwing, whatever the fields are. Take three text fields of which the second has a
  \<^verbatim>\<open>fillAction\<close> that rejects with \<^verbatim>\<open>undefined\<close>. The engine resolves on the first
  field. On the second, the \<^verbatim>\<open>catch\<close> block of the retry loop throws a
  \<^verbatim>\<open>TypeError\<close> reading \<^verbatim>\<open>.message\<close> of what it caught, so \<^verbatim>\<open>fillWithRetry\<close>
  rejects in its first pass, and \<open>fillMultiple\<close>, which has no \<^verbatim>\<open>try\<close> around the
  call, rejects with it: no result is returned, not that of the first field either, and
  the third field is not touched (the page has slept 300 and 200 for the first field
  only). With a \<^verbatim>\<open>fillAction\<close> that rejects with an \<^verbatim>\<open>Error\<close> instead, the same
  batch resolves with three results, the second a failure after four attempts.
\<close>

theorem fillMultiple_rejecting_callback:
  "fst (fillMultiple rejectingFields None blankPage) = Inl TextUnreadable \<and>
   dom (snd (fillMultiple rejectingFields None blankPage)) = [300, 200] \<and>
   fst (fillWithRetry (loggingLocator ''alice'') (Str ''alice'') noOptions blankPage)
     = Inr \<lparr> success = True, attempts = 1, finalValue = Str ''alice'', error = None \<rparr> \<and>
   fst (fillWithRetry (loggingLocator ''stale'') (Str ''bob'')
          (noOptions\<lparr> fillAction_opt := Given rejectingFill \<rparr>) blankPage)
     = Inl TextUnreadable \<and>
   fst (fillMultiple throwingFields None blankPage)
     = Inr [\<lparr> success = True, attempts = 1, finalValue = Str ''alice'', error = None \<rparr>,
            \<lparr> success = False, attempts = 4, finalValue = Str ''stale'',
              error = Some (ErrorText (Rejected ''boom'')) \<rparr>,
            \<lparr> success = True, attempts = 1, finalValue = Str ''carol'', error = None \<rparr>]"
  by (simp add: fill_defs fillMultiple_def rejectingFields_def throwingFields_def spread_def
      spreadKey_def orEmpty_def rejectingFill_def throwingFill_def)


subsection \<open>The request counter\<close>

lemma track_foreign: "trackerOwner l \<noteq> k \<Longrightarrow> track k l c = c"
  by (cases l) simp_all

lemma fold_track_foreign:
  "\<forall>l\<in>set ls. trackerOwner (snd l) \<noteq> k \<Longrightarrow> fold (\<lambda>l. track k (snd l)) ls c = c"
  by (induction ls arbitrary: c) (simp_all add: track_foreign)

lemma emitTo_own:
  assumes "\<forall>l\<in>set base. trackerOwner (snd l) \<noteq> k"
  shows "emitTo k (base @ ownTrackers k) ev c
           = c + (if ev = EvRequest then 1 else 0)
               - (if ev = EvRequestFinished \<or> ev = EvRequestFailed then 1 else 0)"
proof -
  from assms have "fold (\<lambda>l. track k (snd l)) (filter (\<lambda>l. fst l = ev) base) c = c"
    by (intro fold_track_foreign) simp
  then show ?thesis
    by (cases ev) (simp_all add: emitTo_def ownTrackers_def)
qed

lemma dispatch_own:
  assumes "\<forall>l\<in>set base. trackerOwner (snd l) \<noteq> k"
  shows "dispatch k (base @ ownTrackers k) evs c
           = c + int (count_list evs EvRequest)
               - int (count_list evs EvRequestFinished) - int (count_list evs EvRequestFailed)"
  unfolding dispatch_def
  by (induction evs arbitrary: c) (simp_all add: emitTo_own [OF assms])

lemma quiescenceLoop_quiet: "snd st \<le> 0 \<Longrightarrow> quiescenceLoop k loc timeout startTime st = st"
  by (simp add: quiescenceLoop.simps [of k loc timeout startTime st])

text \<open>
  C10. In a state whose counter is not positive the quiescence wait is the identity: it is
  not entered, nothing is slept; it is entered, as the polling loop, when tracking is on and
  the counter is positive; and the loop, reached with a counter that is not positive,
  returns at once. With tracking on, the registration adds the three listeners of the
  attempt, and with them registered the events dispatched during a call change the counter
  by the number of requests started minus the numbers of requests finished and failed,
  whatever request they belong to: so it can be negative. (When a request started
  before the attempt finishes during its first sleep, the counter is \<open>-1\<close> and the wait
  is not entered.)
\<close>

theorem quiescence_wait_threshold:
  "(snd st \<le> 0 \<longrightarrow> waitForQuiescence cfg k loc st = st) \<and>
   (waitForRequests cfg \<and> 0 < snd st \<longrightarrow>
      waitForQuiescence cfg k loc st
        = quiescenceLoop k loc (requestTimeout cfg) (clock (fst st)) st) \<and>
   (snd st \<le> 0 \<longrightarrow> quiescenceLoop k loc timeout startTime st = st) \<and>
   (waitForRequests cfg \<longrightarrow> registry (registerTrackers cfg k pg) = registry pg @ ownTrackers k) \<and>
   ((\<forall>l\<in>set base. trackerOwner (snd l) \<noteq> k) \<longrightarrow>
      dispatch k (base @ ownTrackers k) evs c
        = c + int (count_list evs EvRequest)
            - int (count_list evs EvRequestFinished) - int (count_list evs EvRequestFailed))"
proof -
  have "waitForRequests cfg \<longrightarrow> registry (registerTrackers cfg k pg) = registry pg @ ownTrackers k"
    by (simp add: registerTrackers_def addListener_def ownTrackers_def)
  then show ?thesis
    by (simp add: waitForQuiescence_def quiescenceLoop_quiet dispatch_own)
qed

theorem quiescence_wait_threshold_witness:
  "waitForRequests (mergeDefaults noOptions) \<and>
   sleep 0 lateFinishLocator 300 (registerTrackers (mergeDefaults noOptions) 0 blankPage, 0)
     = (\<lparr> dom = [300], clock = 300, registry = ownTrackers 0, closures = 0 \<rparr>, - 1) \<and>
   waitForQuiescence (mergeDefaults noOptions) 0 lateFinishLocator
       (\<lparr> dom = [300], clock = 300, registry = ownTrackers 0, closures = 0 \<rparr>, - 1)
     = (\<lparr> dom = [300], clock = 300, registry = ownTrackers 0, closures = 0 \<rparr>, - 1) \<and>
   dispatch 0 ([] @ ownTrackers 0) [EvRequestFinished] 0 = - 1"
  using quiescence_wait_threshold
    [of "(\<lparr> dom = [300], clock = 300, registry = ownTrackers 0, closures = 0 \<rparr>, - 1)"
        "mergeDefaults noOptions" 0 lateFinishLocator 0 0 blankPage "[]" "[EvRequestFinished]" 0]
  by (simp add: fill_defs lateFinishLocator_def ownTrackers_def)

end
